theory Spec2Isabelle
  imports Main "HOL-Library.Word"
begin

section \<open>Private Donation Matching: data model\<close>

text \<open>
  The contract \<open>PrivateDonationMatching\<close> keeps donation rounds whose amounts are
  ciphertexts of an FHE backend. Solidity's \<open>uint256\<close> is a 256-bit word, an
  \<open>address\<close> a 160-bit word, and an encrypted value (\<open>euint64\<close>, \<open>ebool\<close>) is a
  handle naming a ciphertext held by the backend.
\<close>

type_synonym uint256 = "256 word"
type_synonym uint64 = "64 word"
type_synonym address = "160 word"
type_synonym handle = nat

record Donation =
  donor :: address
  amount :: handle
  donationTimestamp :: uint256
  donationRoundId :: uint256

record MatchingCommitment =
  matcher :: address
  maxMatchingAmount :: handle
  minTrigger :: handle
  commitmentRoundId :: uint256
  commitmentTimestamp :: uint256
  isActive :: bool

record DonationRound =
  id :: uint256
  name :: string
  description :: string
  startTime :: uint256
  endTime :: uint256
  settled :: bool
  encryptedCommunityTotal :: handle
  encryptedMatchingTotal :: handle
  encryptedFinalTotal :: handle
  publicFinalTotal :: uint256

datatype event =
    DonationRoundCreated uint256 string uint256
  | DonationMade uint256 address uint256
  | MatchingCommitted uint256 address uint256
  | RoundSettled uint256 uint256

text \<open>
  The failures of a call. The contract reverts with a reason string; the constructors
  carry the names of the error taxonomy:
  \<^item> \<open>InvalidArgument\<close>: "Round name cannot be empty", "Duration must be positive";
  \<^item> \<open>NotFound\<close>: "Invalid round ID";
  \<^item> \<open>AlreadySettled\<close>: "Round already settled";
  \<^item> \<open>RoundEnded\<close>: "Round has ended";
  \<^item> \<open>RoundNotEnded\<close>: "Round not ended";
  \<^item> \<open>DuplicateDonation\<close>: "Already donated to this round";
  \<^item> \<open>DuplicateCommitment\<close>: "Already committed matching";
  \<^item> \<open>InvalidProof\<close>: the backend rejects an encrypted input;
  \<^item> \<open>Panic\<close>: checked \<open>uint256\<close> arithmetic overflows (Solidity 0.8).
\<close>

datatype error =
    InvalidArgument
  | NotFound
  | AlreadySettled
  | RoundEnded
  | RoundNotEnded
  | DuplicateDonation
  | DuplicateCommitment
  | InvalidProof
  | Panic

text \<open>The plaintext under a ciphertext: a 64-bit unsigned integer or a boolean.\<close>

datatype plaintext = PUint64 uint64 | PBool bool

text \<open>
  The state: the storage of the contract (the first six fields), its own address
  (\<open>address(this)\<close>), the events it has emitted, and the backend (the last three
  fields). Solidity mappings are total, every key holding the zero value until it is
  written.
\<close>

text \<open>
  Modelled from the spec: the cryptographic backend (the FHE library and its access
  control list), which the contract imports and which is not among the sources. The
  backend holds the ciphertexts in creation order: handle \<open>h\<close> names the \<open>h\<close>-th
  ciphertext ever created, handle 0 is the uninitialised handle. Every operation yields a
  ciphertext with a new identity. The field \<open>acl\<close> is the log of decrypt grants in the
  order they were issued; grants are never revoked. The field \<open>verify\<close> is the
  backend's check of an encrypted input: given the external handle, the proof, the
  submitting user and the target contract, it yields the plaintext of the input when
  the proof binds the input to that user and contract, and nothing otherwise.
\<close>

record state =
  roundCounter :: uint256
  rounds :: "uint256 \<Rightarrow> DonationRound"
  roundDonations :: "uint256 \<Rightarrow> Donation list"
  roundMatchingCommitments :: "uint256 \<Rightarrow> MatchingCommitment list"
  hasDonated :: "uint256 \<Rightarrow> address \<Rightarrow> bool"
  hasCommittedMatching :: "uint256 \<Rightarrow> address \<Rightarrow> bool"
  self :: address
  events :: "event list"
  ciphertexts :: "plaintext list"
  acl :: "(handle \<times> address) list"
  verify :: "uint256 \<Rightarrow> 8 word list \<Rightarrow> address \<Rightarrow> address \<Rightarrow> uint64 option"

text \<open>The context of a call: \<open>msg.sender\<close> and \<open>block.timestamp\<close>.\<close>

record env =
  sender :: address
  timestamp :: uint256

definition zeroRound :: DonationRound where
  "zeroRound = \<lparr>id = 0, name = [], description = [], startTime = 0, endTime = 0,
     settled = False, encryptedCommunityTotal = 0, encryptedMatchingTotal = 0,
     encryptedFinalTotal = 0, publicFinalTotal = 0\<rparr>"

text \<open>The state after deployment at address \<open>a\<close> against a backend with check \<open>v\<close>.\<close>

definition deployed ::
  "address \<Rightarrow> (uint256 \<Rightarrow> 8 word list \<Rightarrow> address \<Rightarrow> address \<Rightarrow> uint64 option) \<Rightarrow> state" where
  "deployed a v = \<lparr>roundCounter = 0, rounds = (\<lambda>_. zeroRound), roundDonations = (\<lambda>_. []),
     roundMatchingCommitments = (\<lambda>_. []), hasDonated = (\<lambda>_ _. False),
     hasCommittedMatching = (\<lambda>_ _. False), self = a, events = [],
     ciphertexts = [], acl = [], verify = v\<rparr>"

section \<open>The backend\<close>

text \<open>
  Modelled from the spec: the operations of the FHE library. A homomorphic operation
  produces a new ciphertext whose plaintext is the result of the operation on the
  operands' plaintexts; encrypted integers have 64 bits, so addition wraps around.
  An operand that is no ciphertext of the expected type reads as zero (as false).
\<close>

definition decrypt :: "state \<Rightarrow> handle \<Rightarrow> plaintext option" where
  "decrypt s h = (if 0 < h \<and> h \<le> length (ciphertexts s)
                  then Some (ciphertexts s ! (h - 1)) else None)"

definition plain64 :: "state \<Rightarrow> handle \<Rightarrow> uint64" where
  "plain64 s h = (case decrypt s h of Some (PUint64 v) \<Rightarrow> v | _ \<Rightarrow> 0)"

definition plainBool :: "state \<Rightarrow> handle \<Rightarrow> bool" where
  "plainBool s h = (case decrypt s h of Some (PBool b) \<Rightarrow> b | _ \<Rightarrow> False)"

definition fresh :: "plaintext \<Rightarrow> state \<Rightarrow> handle \<times> state" where
  "fresh v s = (Suc (length (ciphertexts s)), s\<lparr>ciphertexts := ciphertexts s @ [v]\<rparr>)"

definition FHE_asEuint64 :: "uint64 \<Rightarrow> state \<Rightarrow> handle \<times> state" where
  "FHE_asEuint64 v s = fresh (PUint64 v) s"

definition FHE_add :: "handle \<Rightarrow> handle \<Rightarrow> state \<Rightarrow> handle \<times> state" where
  "FHE_add a b s = fresh (PUint64 (plain64 s a + plain64 s b)) s"

definition FHE_ge :: "handle \<Rightarrow> handle \<Rightarrow> state \<Rightarrow> handle \<times> state" where
  "FHE_ge a b s = fresh (PBool (plain64 s b \<le> plain64 s a)) s"

definition FHE_select :: "handle \<Rightarrow> handle \<Rightarrow> handle \<Rightarrow> state \<Rightarrow> handle \<times> state" where
  "FHE_select c a b s = fresh (PUint64 (if plainBool s c then plain64 s a else plain64 s b)) s"

definition FHE_fromExternal ::
  "env \<Rightarrow> uint256 \<Rightarrow> 8 word list \<Rightarrow> state \<Rightarrow> (handle \<times> state) option" where
  "FHE_fromExternal e inputHandle inputProof s =
     (case verify s inputHandle inputProof (sender e) (self s) of
        None \<Rightarrow> None
      | Some v \<Rightarrow> Some (fresh (PUint64 v) s))"

definition FHE_allow :: "handle \<Rightarrow> address \<Rightarrow> state \<Rightarrow> state" where
  "FHE_allow h a s = s\<lparr>acl := acl s @ [(h, a)]\<rparr>"

definition FHE_allowThis :: "handle \<Rightarrow> state \<Rightarrow> state" where
  "FHE_allowThis h s = FHE_allow h (self s) s"

definition isAllowed :: "state \<Rightarrow> handle \<Rightarrow> address \<Rightarrow> bool" where
  "isAllowed s h a = ((h, a) \<in> set (acl s))"

text \<open>The addresses holding a decrypt grant on a ciphertext.\<close>

definition grantees :: "state \<Rightarrow> handle \<Rightarrow> address set" where
  "grantees s h = {a. isAllowed s h a}"

section \<open>The contract\<close>

definition emit :: "event \<Rightarrow> state \<Rightarrow> state" where
  "emit ev s = s\<lparr>events := events s @ [ev]\<rparr>"

definition validRound :: "state \<Rightarrow> uint256 \<Rightarrow> bool" where
  "validRound s roundId = (0 < roundId \<and> roundId \<le> roundCounter s)"

text \<open>
  \<open>createRound\<close>. A failing call reverts: it returns the error and the state it was
  called in. The function has no return value. The increment of the counter and the sum
  \<open>startTime + duration\<close> are checked: the call panics when the counter is at its
  maximum, and when the sum wraps around (which shows as a sum below its first operand).
\<close>

definition createRound ::
  "env \<Rightarrow> string \<Rightarrow> string \<Rightarrow> uint256 \<Rightarrow> state \<Rightarrow> (error + unit) \<times> state" where
  "createRound e nm descr duration s =
     (if \<not> 0 < length nm then (Inl InvalidArgument, s)
      else if \<not> 0 < duration then (Inl InvalidArgument, s)
      else if roundCounter s = - 1 then (Inl Panic, s)
      else if timestamp e + duration < timestamp e then (Inl Panic, s)
      else
        let roundId = roundCounter s + 1;
            s1 = s\<lparr>roundCounter := roundId\<rparr>;
            startT = timestamp e;
            endT = startT + duration;
            (c, s2) = FHE_asEuint64 0 s1;
            (m, s3) = FHE_asEuint64 0 s2;
            (f, s4) = FHE_asEuint64 0 s3;
            s5 = s4\<lparr>rounds := (rounds s4)(roundId :=
                   \<lparr>id = roundId, name = nm, description = descr, startTime = startT,
                    endTime = endT, settled = False, encryptedCommunityTotal = c,
                    encryptedMatchingTotal = m, encryptedFinalTotal = f,
                    publicFinalTotal = 0\<rparr>)\<rparr>;
            s6 = FHE_allowThis (encryptedCommunityTotal (rounds s5 roundId)) s5;
            s7 = FHE_allowThis (encryptedMatchingTotal (rounds s6 roundId)) s6;
            s8 = FHE_allowThis (encryptedFinalTotal (rounds s7 roundId)) s7
        in (Inr (), emit (DonationRoundCreated roundId nm endT) s8))"

text \<open>The loop of \<open>donate\<close> and the first loop after settlement: one grant per donor.\<close>

fun allowDonors :: "handle \<Rightarrow> Donation list \<Rightarrow> state \<Rightarrow> state" where
  "allowDonors h [] s = s"
| "allowDonors h (d # ds) s = allowDonors h ds (FHE_allow h (donor d) s)"

text \<open>
  \<open>donate\<close>. The loop runs over the indices below \<open>donations.length - 1\<close>, that is
  over the donations stored before this one; the array holds the new donation by then, so
  the checked subtraction cannot underflow.
\<close>

definition donate ::
  "env \<Rightarrow> uint256 \<Rightarrow> uint256 \<Rightarrow> 8 word list \<Rightarrow> state \<Rightarrow> (error + unit) \<times> state" where
  "donate e roundId encryptedAmount inputProof s =
     (if \<not> validRound s roundId then (Inl NotFound, s)
      else if settled (rounds s roundId) then (Inl AlreadySettled, s)
      else if \<not> timestamp e < endTime (rounds s roundId) then (Inl RoundEnded, s)
      else if hasDonated s roundId (sender e) then (Inl DuplicateDonation, s)
      else
        case FHE_fromExternal e encryptedAmount inputProof s of
          None \<Rightarrow> (Inl InvalidProof, s)
        | Some (amt, s1) \<Rightarrow>
            let s2 = FHE_allowThis amt s1;
                (total, s3) = FHE_add (encryptedCommunityTotal (rounds s2 roundId)) amt s2;
                s4 = s3\<lparr>rounds := (rounds s3)(roundId :=
                       (rounds s3 roundId)\<lparr>encryptedCommunityTotal := total\<rparr>)\<rparr>;
                s5 = s4\<lparr>roundDonations := (roundDonations s4)(roundId :=
                       roundDonations s4 roundId @
                         [\<lparr>donor = sender e, amount = amt,
                           donationTimestamp = timestamp e, donationRoundId = roundId\<rparr>])\<rparr>;
                s6 = s5\<lparr>hasDonated := (hasDonated s5)(roundId :=
                       (hasDonated s5 roundId)(sender e := True))\<rparr>;
                s7 = FHE_allowThis (encryptedCommunityTotal (rounds s6 roundId)) s6;
                s8 = FHE_allow amt (sender e) s7;
                s9 = FHE_allow (encryptedCommunityTotal (rounds s8 roundId)) (sender e) s8;
                donations = roundDonations s9 roundId;
                s10 = allowDonors (encryptedCommunityTotal (rounds s9 roundId))
                        (take (length donations - 1) donations) s9
            in (Inr (), emit (DonationMade roundId (sender e) (timestamp e)) s10))"

definition commitMatching ::
  "env \<Rightarrow> uint256 \<Rightarrow> uint256 \<Rightarrow> uint256 \<Rightarrow> 8 word list \<Rightarrow> 8 word list \<Rightarrow> state
     \<Rightarrow> (error + unit) \<times> state" where
  "commitMatching e roundId encryptedMaxMatching encryptedMinTrigger inputProofMax inputProofMin s =
     (if \<not> validRound s roundId then (Inl NotFound, s)
      else if settled (rounds s roundId) then (Inl AlreadySettled, s)
      else if \<not> timestamp e < endTime (rounds s roundId) then (Inl RoundEnded, s)
      else if hasCommittedMatching s roundId (sender e) then (Inl DuplicateCommitment, s)
      else
        case FHE_fromExternal e encryptedMaxMatching inputProofMax s of
          None \<Rightarrow> (Inl InvalidProof, s)
        | Some (maxMatching, s1) \<Rightarrow>
           (case FHE_fromExternal e encryptedMinTrigger inputProofMin s1 of
              None \<Rightarrow> (Inl InvalidProof, s)
            | Some (minTrig, s2) \<Rightarrow>
                let s3 = FHE_allowThis maxMatching s2;
                    s4 = FHE_allowThis minTrig s3;
                    s5 = s4\<lparr>roundMatchingCommitments := (roundMatchingCommitments s4)(roundId :=
                           roundMatchingCommitments s4 roundId @
                             [\<lparr>matcher = sender e, maxMatchingAmount = maxMatching,
                               minTrigger = minTrig, commitmentRoundId = roundId,
                               commitmentTimestamp = timestamp e, isActive = True\<rparr>])\<rparr>;
                    s6 = s5\<lparr>hasCommittedMatching := (hasCommittedMatching s5)(roundId :=
                           (hasCommittedMatching s5 roundId)(sender e := True))\<rparr>;
                    s7 = FHE_allow maxMatching (sender e) s6;
                    s8 = FHE_allow minTrig (sender e) s7
                in (Inr (), emit (MatchingCommitted roundId (sender e) (timestamp e)) s8)))"

definition viewCurrentEncryptedTotal :: "uint256 \<Rightarrow> state \<Rightarrow> error + handle" where
  "viewCurrentEncryptedTotal roundId s =
     (if \<not> validRound s roundId then Inl NotFound
      else Inr (encryptedCommunityTotal (rounds s roundId)))"

text \<open>
  The first loop of \<open>settleRound\<close>: for each active commitment, in the order of the
  array, an encrypted comparison, an encrypted zero, an encrypted selection and an encrypted
  addition. The community total is read from storage in every iteration and no iteration
  writes it, so the loop takes its handle as an argument.
\<close>

fun matchingLoop ::
  "handle \<Rightarrow> MatchingCommitment list \<Rightarrow> handle \<Rightarrow> state \<Rightarrow> handle \<times> state" where
  "matchingLoop community [] matchingTotal s = (matchingTotal, s)"
| "matchingLoop community (c # cs) matchingTotal s =
     (if \<not> isActive c then matchingLoop community cs matchingTotal s
      else
        let (triggerMet, s1) = FHE_ge community (minTrigger c) s;
            (zero, s2) = FHE_asEuint64 0 s1;
            (matchingAmount, s3) = FHE_select triggerMet (maxMatchingAmount c) zero s2;
            (matchingTotal', s4) = FHE_add matchingTotal matchingAmount s3
        in matchingLoop community cs matchingTotal' s4)"

fun allowMatchers :: "handle \<Rightarrow> MatchingCommitment list \<Rightarrow> state \<Rightarrow> state" where
  "allowMatchers h [] s = s"
| "allowMatchers h (c # cs) s =
     allowMatchers h cs (if isActive c then FHE_allow h (matcher c) s else s)"

text \<open>
  \<open>settleRound\<close>. The local \<open>finalTotal\<close> is first set to the community total and
  overwritten before it is read; the model starts at the loop.
\<close>

definition settleRound :: "env \<Rightarrow> uint256 \<Rightarrow> state \<Rightarrow> (error + unit) \<times> state" where
  "settleRound e roundId s =
     (if \<not> validRound s roundId then (Inl NotFound, s)
      else if settled (rounds s roundId) then (Inl AlreadySettled, s)
      else if \<not> endTime (rounds s roundId) \<le> timestamp e then (Inl RoundNotEnded, s)
      else
        let s1 = s\<lparr>rounds := (rounds s)(roundId := (rounds s roundId)\<lparr>settled := True\<rparr>)\<rparr>;
            (matchingTotal0, s2) = FHE_asEuint64 0 s1;
            commitments = roundMatchingCommitments s2 roundId;
            (matchingTotal, s3) =
               matchingLoop (encryptedCommunityTotal (rounds s2 roundId)) commitments
                 matchingTotal0 s2;
            (finalTotal, s4) =
               FHE_add (encryptedCommunityTotal (rounds s3 roundId)) matchingTotal s3;
            s5 = s4\<lparr>rounds := (rounds s4)(roundId :=
                   (rounds s4 roundId)\<lparr>encryptedMatchingTotal := matchingTotal\<rparr>)\<rparr>;
            s6 = s5\<lparr>rounds := (rounds s5)(roundId :=
                   (rounds s5 roundId)\<lparr>encryptedFinalTotal := finalTotal\<rparr>)\<rparr>;
            s7 = FHE_allowThis (encryptedFinalTotal (rounds s6 roundId)) s6;
            s8 = allowDonors (encryptedFinalTotal (rounds s7 roundId))
                   (roundDonations s7 roundId) s7;
            s9 = allowMatchers (encryptedFinalTotal (rounds s8 roundId)) commitments s8
        in (Inr (), emit (RoundSettled roundId 0) s9))"

definition getRound :: "uint256 \<Rightarrow> state \<Rightarrow> error + DonationRound" where
  "getRound roundId s =
     (if \<not> validRound s roundId then Inl NotFound else Inr (rounds s roundId))"

text \<open>The length of a storage array is returned as a number.\<close>

definition getDonationCount :: "uint256 \<Rightarrow> state \<Rightarrow> error + nat" where
  "getDonationCount roundId s =
     (if \<not> validRound s roundId then Inl NotFound
      else Inr (length (roundDonations s roundId)))"

definition getMatchingCommitmentCount :: "uint256 \<Rightarrow> state \<Rightarrow> error + nat" where
  "getMatchingCommitmentCount roundId s =
     (if \<not> validRound s roundId then Inl NotFound
      else Inr (length (roundMatchingCommitments s roundId)))"

definition getRoundCount :: "state \<Rightarrow> uint256" where
  "getRoundCount s = roundCounter s"

section \<open>Calls and executions\<close>

text \<open>
  The external interface as a datatype of calls, so that a history of the contract is a
  list of calls, each with its context. A read operation returns its value and the state
  it was called in.
\<close>

datatype call =
    CreateRound string string uint256
  | Donate uint256 uint256 "8 word list"
  | CommitMatching uint256 uint256 uint256 "8 word list" "8 word list"
  | SettleRound uint256
  | ViewCurrentEncryptedTotal uint256
  | GetRound uint256
  | GetDonationCount uint256
  | GetMatchingCommitmentCount uint256
  | GetRoundCount

datatype returned =
    Void
  | Ciphertext handle
  | RoundData DonationRound
  | Count nat
  | Counter uint256

fun exec :: "env \<Rightarrow> call \<Rightarrow> state \<Rightarrow> (error + returned) \<times> state" where
  "exec e (CreateRound nm descr duration) s =
     (case createRound e nm descr duration s of (r, s') \<Rightarrow> (map_sum (\<lambda>x. x) (\<lambda>_. Void) r, s'))"
| "exec e (Donate roundId encryptedAmount inputProof) s =
     (case donate e roundId encryptedAmount inputProof s of
        (r, s') \<Rightarrow> (map_sum (\<lambda>x. x) (\<lambda>_. Void) r, s'))"
| "exec e (CommitMatching roundId em et pm pt) s =
     (case commitMatching e roundId em et pm pt s of
        (r, s') \<Rightarrow> (map_sum (\<lambda>x. x) (\<lambda>_. Void) r, s'))"
| "exec e (SettleRound roundId) s =
     (case settleRound e roundId s of (r, s') \<Rightarrow> (map_sum (\<lambda>x. x) (\<lambda>_. Void) r, s'))"
| "exec e (ViewCurrentEncryptedTotal roundId) s =
     (map_sum (\<lambda>x. x) Ciphertext (viewCurrentEncryptedTotal roundId s), s)"
| "exec e (GetRound roundId) s = (map_sum (\<lambda>x. x) RoundData (getRound roundId s), s)"
| "exec e (GetDonationCount roundId) s = (map_sum (\<lambda>x. x) Count (getDonationCount roundId s), s)"
| "exec e (GetMatchingCommitmentCount roundId) s =
     (map_sum (\<lambda>x. x) Count (getMatchingCommitmentCount roundId s), s)"
| "exec e GetRoundCount s = (Inr (Counter (getRoundCount s)), s)"

text \<open>The state after a history of calls, failed calls included.\<close>

fun run :: "(env \<times> call) list \<Rightarrow> state \<Rightarrow> state" where
  "run [] s = s"
| "run ((e, c) # cs) s = run cs (snd (exec e c s))"

text \<open>Block timestamps never decrease along a history that starts at time \<open>t\<close>.\<close>

fun chronological :: "uint256 \<Rightarrow> (env \<times> call) list \<Rightarrow> bool" where
  "chronological t [] = True"
| "chronological t ((e, c) # cs) = (t \<le> timestamp e \<and> chronological (timestamp e) cs)"

section \<open>What the claims speak of\<close>

text \<open>
  The donations made in a history that starts in state \<open>s\<close>: for every call of
  \<open>donate\<close> on round \<open>r\<close> that succeeds, in the order of the calls, the donor and
  the plaintext amount the backend's check reads from the encrypted input.
\<close>

fun successfulDonations :: "uint256 \<Rightarrow> (env \<times> call) list \<Rightarrow> state \<Rightarrow> (address \<times> uint64) list" where
  "successfulDonations r [] s = []"
| "successfulDonations r ((e, c) # cs) s =
     (case c of
        Donate r' encryptedAmount inputProof \<Rightarrow>
          (if r' = r \<and> fst (donate e r' encryptedAmount inputProof s) = Inr ()
           then (case verify s encryptedAmount inputProof (sender e) (self s) of
                   Some v \<Rightarrow> [(sender e, v)]
                 | None \<Rightarrow> [])
           else [])
      | _ \<Rightarrow> []) @ successfulDonations r cs (snd (exec e c s))"

text \<open>
  What a commitment with trigger \<open>T\<close> and maximum \<open>M\<close> contributes when the community
  total is \<open>C\<close>; the three totals of a round as decrypted, as numbers; and the sum of the
  contributions of the active commitments of a round, in insertion order, as an unbounded
  number.
\<close>

definition contribution :: "nat \<Rightarrow> nat \<Rightarrow> nat \<Rightarrow> nat" where
  "contribution C T M = (if T \<le> C then M else 0)"

definition communityTotal :: "state \<Rightarrow> uint256 \<Rightarrow> nat" where
  "communityTotal s r = unat (plain64 s (encryptedCommunityTotal (rounds s r)))"

definition matchingTotal :: "state \<Rightarrow> uint256 \<Rightarrow> nat" where
  "matchingTotal s r = unat (plain64 s (encryptedMatchingTotal (rounds s r)))"

definition finalTotal :: "state \<Rightarrow> uint256 \<Rightarrow> nat" where
  "finalTotal s r = unat (plain64 s (encryptedFinalTotal (rounds s r)))"

definition matchingSum :: "state \<Rightarrow> uint256 \<Rightarrow> nat" where
  "matchingSum s r =
     sum_list (map (\<lambda>c. contribution (communityTotal s r)
                           (unat (plain64 s (minTrigger c)))
                           (unat (plain64 s (maxMatchingAmount c))))
                 (filter isActive (roundMatchingCommitments s r)))"

section \<open>Invariants of the reachable states\<close>

text \<open>Every grant is on a ciphertext that exists.\<close>

definition aclValid :: "state \<Rightarrow> bool" where
  "aclValid s = (\<forall>(h, a) \<in> set (acl s). h \<le> length (ciphertexts s))"

text \<open>No stored handle names a ciphertext that is still to be created.\<close>

definition handlesValid :: "state \<Rightarrow> bool" where
  "handlesValid s =
     ((\<forall>r. encryptedCommunityTotal (rounds s r) \<le> length (ciphertexts s)) \<and>
      (\<forall>r. encryptedMatchingTotal (rounds s r) \<le> length (ciphertexts s)) \<and>
      (\<forall>r. encryptedFinalTotal (rounds s r) \<le> length (ciphertexts s)) \<and>
      (\<forall>r. \<forall>c \<in> set (roundMatchingCommitments s r).
          minTrigger c \<le> length (ciphertexts s) \<and>
          maxMatchingAmount c \<le> length (ciphertexts s)) \<and>
      (\<forall>r. \<forall>d \<in> set (roundDonations s r). amount d \<le> length (ciphertexts s)))"

text \<open>A round id that has not been allocated holds the zero round and no donation.\<close>

definition unusedEmpty :: "state \<Rightarrow> bool" where
  "unusedEmpty s =
     (\<forall>r. \<not> validRound s r \<longrightarrow> rounds s r = zeroRound \<and> roundDonations s r = [])"

text \<open>Every donor, and the contract, holds a grant on the current community total.\<close>

definition donorsGranted :: "state \<Rightarrow> bool" where
  "donorsGranted s =
     ((\<forall>r. \<forall>d \<in> set (roundDonations s r).
          isAllowed s (encryptedCommunityTotal (rounds s r)) (donor d)) \<and>
      (\<forall>r. validRound s r \<longrightarrow>
          isAllowed s (encryptedCommunityTotal (rounds s r)) (self s)))"

text \<open>A settled round ended no later than \<open>t\<close>.\<close>

definition settledPast :: "uint256 \<Rightarrow> state \<Rightarrow> bool" where
  "settledPast t s = (\<forall>r. settled (rounds s r) \<longrightarrow> endTime (rounds s r) \<le> t)"

text \<open>The donors on record are marked as such, and no donor is recorded twice.\<close>

definition donorsMarked :: "state \<Rightarrow> bool" where
  "donorsMarked s =
     (\<forall>r. (\<forall>d \<in> set (roundDonations s r). hasDonated s r (donor d)) \<and>
          distinct (map donor (roundDonations s r)))"

text \<open>The community total of an allocated round is an encrypted integer.\<close>

definition totalsTyped :: "state \<Rightarrow> bool" where
  "totalsTyped s =
     (\<forall>r. validRound s r \<longrightarrow>
        (\<exists>x. decrypt s (encryptedCommunityTotal (rounds s r)) = Some (PUint64 x)))"

section \<open>Sample histories\<close>

text \<open>
  A backend check for the examples: it accepts every input that comes with a non-empty
  proof and reads the plaintext from the low 64 bits of the external handle. The sample
  contract is deployed at address 99.
\<close>

definition sampleVerify ::
  "uint256 \<Rightarrow> 8 word list \<Rightarrow> address \<Rightarrow> address \<Rightarrow> uint64 option" where
  "sampleVerify h p u c = (if p = [] then None else Some (ucast h))"

definition sampleStart :: state where
  "sampleStart = deployed 99 sampleVerify"

definition by_at :: "address \<Rightarrow> uint256 \<Rightarrow> env" where
  "by_at a t = \<lparr>sender = a, timestamp = t\<rparr>"

text \<open>
  One round of 86400 seconds created at time 0; address 2 donates 30000, address 3
  donates 50000, address 4 commits a maximum of 50000 with trigger 80000.
\<close>

definition sampleHistory :: "(env \<times> call) list" where
  "sampleHistory =
     [(by_at 1 0, CreateRound ''Climate'' ''Support climate action'' 86400),
      (by_at 2 10, Donate 1 30000 [1]),
      (by_at 3 20, Donate 1 50000 [1]),
      (by_at 4 30, CommitMatching 1 50000 80000 [1] [1])]"

definition sampleOpen :: state where
  "sampleOpen = run sampleHistory sampleStart"

definition sampleSettled :: state where
  "sampleSettled = snd (settleRound (by_at 5 86400) 1 sampleOpen)"

text \<open>The same round with donations of 30000 and 40000, below the trigger.\<close>

definition belowHistory :: "(env \<times> call) list" where
  "belowHistory =
     [(by_at 1 0, CreateRound ''Climate'' ''Support climate action'' 86400),
      (by_at 2 10, Donate 1 30000 [1]),
      (by_at 3 20, Donate 1 40000 [1]),
      (by_at 4 30, CommitMatching 1 50000 80000 [1] [1])]"

definition belowOpen :: state where
  "belowOpen = run belowHistory sampleStart"

text \<open>
  A round with one donation of \<open>2^64 - 1\<close> and a commitment of at most 1 with
  trigger 0.
\<close>

definition overflowHistory :: "(env \<times> call) list" where
  "overflowHistory =
     [(by_at 1 0, CreateRound ''Climate'' ''Support climate action'' 86400),
      (by_at 2 10, Donate 1 18446744073709551615 [1]),
      (by_at 4 30, CommitMatching 1 1 0 [1] [1])]"

definition overflowOpen :: state where
  "overflowOpen = run overflowHistory sampleStart"

definition overflowSettled :: state where
  "overflowSettled = snd (settleRound (by_at 5 86400) 1 overflowOpen)"

section \<open>Effects of the operations\<close>

lemmas backend_defs = FHE_asEuint64_def FHE_add_def FHE_ge_def FHE_select_def
  FHE_fromExternal_def FHE_allow_def FHE_allowThis_def fresh_def emit_def

lemma allowDonors_effect:
  "allowDonors h ds s = s\<lparr>acl := acl s @ map (\<lambda>d. (h, donor d)) ds\<rparr>"
  by (induction ds arbitrary: s) (simp_all add: FHE_allow_def)

lemma allowMatchers_effect:
  "allowMatchers h cs s = s\<lparr>acl := acl s @ map (\<lambda>c. (h, matcher c)) (filter isActive cs)\<rparr>"
  by (induction cs arbitrary: s) (simp_all add: FHE_allow_def)

lemma decrypt_append:
  "h \<le> length (ciphertexts s) \<Longrightarrow>
   decrypt (s\<lparr>ciphertexts := ciphertexts s @ xs\<rparr>) h = decrypt s h"
  by (cases h) (simp_all add: decrypt_def nth_append)

lemma createRound_effect:
  assumes "nm \<noteq> []" "0 < duration" "roundCounter s \<noteq> - 1"
    and "\<not> timestamp e + duration < timestamp e"
  shows "createRound e nm descr duration s =
    (Inr (),
     s\<lparr>roundCounter := roundCounter s + 1,
       rounds := (rounds s)(roundCounter s + 1 :=
         \<lparr>id = roundCounter s + 1, name = nm, description = descr,
          startTime = timestamp e, endTime = timestamp e + duration, settled = False,
          encryptedCommunityTotal = Suc (length (ciphertexts s)),
          encryptedMatchingTotal = Suc (Suc (length (ciphertexts s))),
          encryptedFinalTotal = Suc (Suc (Suc (length (ciphertexts s)))),
          publicFinalTotal = 0\<rparr>),
       events := events s @
         [DonationRoundCreated (roundCounter s + 1) nm (timestamp e + duration)],
       ciphertexts := ciphertexts s @ [PUint64 0, PUint64 0, PUint64 0],
       acl := acl s @ [(Suc (length (ciphertexts s)), self s),
                       (Suc (Suc (length (ciphertexts s))), self s),
                       (Suc (Suc (Suc (length (ciphertexts s)))), self s)]\<rparr>)"
  using assms by (simp add: createRound_def backend_defs Let_def)

lemma donate_effect:
  assumes "validRound s r" "\<not> settled (rounds s r)" "timestamp e < endTime (rounds s r)"
    and "\<not> hasDonated s r (sender e)"
    and "verify s enc pf (sender e) (self s) = Some v"
  shows "donate e r enc pf s =
    (Inr (),
     s\<lparr>rounds := (rounds s)(r := (rounds s r)
         \<lparr>encryptedCommunityTotal := Suc (Suc (length (ciphertexts s)))\<rparr>),
       roundDonations := (roundDonations s)(r := roundDonations s r @
         [\<lparr>donor = sender e, amount = Suc (length (ciphertexts s)),
           donationTimestamp = timestamp e, donationRoundId = r\<rparr>]),
       hasDonated := (hasDonated s)(r := (hasDonated s r)(sender e := True)),
       events := events s @ [DonationMade r (sender e) (timestamp e)],
       ciphertexts := ciphertexts s @
         [PUint64 v,
          PUint64 (plain64 (s\<lparr>ciphertexts := ciphertexts s @ [PUint64 v]\<rparr>)
                     (encryptedCommunityTotal (rounds s r)) + v)],
       acl := acl s @
         [(Suc (length (ciphertexts s)), self s),
          (Suc (Suc (length (ciphertexts s))), self s),
          (Suc (length (ciphertexts s)), sender e),
          (Suc (Suc (length (ciphertexts s))), sender e)] @
         map (\<lambda>d. (Suc (Suc (length (ciphertexts s))), donor d)) (roundDonations s r)\<rparr>)"
  using assms
  by (simp add: donate_def backend_defs Let_def allowDonors_effect plain64_def decrypt_def nth_append)

lemma commitMatching_effect:
  assumes "validRound s r" "\<not> settled (rounds s r)" "timestamp e < endTime (rounds s r)"
    and "\<not> hasCommittedMatching s r (sender e)"
    and "verify s em pm (sender e) (self s) = Some vmax"
    and "verify s et pt (sender e) (self s) = Some vmin"
  shows "commitMatching e r em et pm pt s =
    (Inr (),
     s\<lparr>roundMatchingCommitments := (roundMatchingCommitments s)(r :=
         roundMatchingCommitments s r @
         [\<lparr>matcher = sender e, maxMatchingAmount = Suc (length (ciphertexts s)),
           minTrigger = Suc (Suc (length (ciphertexts s))), commitmentRoundId = r,
           commitmentTimestamp = timestamp e, isActive = True\<rparr>]),
       hasCommittedMatching :=
         (hasCommittedMatching s)(r := (hasCommittedMatching s r)(sender e := True)),
       events := events s @ [MatchingCommitted r (sender e) (timestamp e)],
       ciphertexts := ciphertexts s @ [PUint64 vmax, PUint64 vmin],
       acl := acl s @
         [(Suc (length (ciphertexts s)), self s),
          (Suc (Suc (length (ciphertexts s))), self s),
          (Suc (length (ciphertexts s)), sender e),
          (Suc (Suc (length (ciphertexts s))), sender e)]\<rparr>)"
  using assms by (simp add: commitMatching_def backend_defs Let_def)

subsection \<open>The matching loop\<close>

lemma plain64_append:
  "h \<le> length (ciphertexts s) \<Longrightarrow>
   plain64 (s\<lparr>ciphertexts := ciphertexts s @ xs\<rparr>) h = plain64 s h"
  by (simp add: plain64_def decrypt_append)

lemma matchingLoop_frame:
  "\<exists>ext. snd (matchingLoop com cs mt s) = s\<lparr>ciphertexts := ciphertexts s @ ext\<rparr>"
proof (induction cs arbitrary: mt s)
  case Nil
  have "s = s\<lparr>ciphertexts := ciphertexts s @ []\<rparr>" by simp
  then show ?case by (metis matchingLoop.simps(1) snd_conv)
next
  case (Cons c cs)
  show ?case
  proof (cases "isActive c")
    case False
    then show ?thesis using Cons.IH [of mt s] by simp
  next
    case True
    have "\<exists>mt' b z x y. matchingLoop com (c # cs) mt s =
            matchingLoop com cs mt' (s\<lparr>ciphertexts := ciphertexts s @ [b, z, x, y]\<rparr>)"
      using True by (simp add: backend_defs Let_def) blast
    then obtain mt' b z x y where
      step: "matchingLoop com (c # cs) mt s =
             matchingLoop com cs mt' (s\<lparr>ciphertexts := ciphertexts s @ [b, z, x, y]\<rparr>)"
      by blast
    from Cons.IH [of mt' "s\<lparr>ciphertexts := ciphertexts s @ [b, z, x, y]\<rparr>"]
    obtain ext where
      "snd (matchingLoop com cs mt' (s\<lparr>ciphertexts := ciphertexts s @ [b, z, x, y]\<rparr>)) =
       s\<lparr>ciphertexts := ciphertexts s @ ([b, z, x, y] @ ext)\<rparr>"
      by auto
    then show ?thesis unfolding step by blast
  qed
qed

lemma matchingLoop_handle:
  "mt \<le> length (ciphertexts s) \<Longrightarrow>
   fst (matchingLoop com cs mt s) \<le> length (ciphertexts (snd (matchingLoop com cs mt s)))"
  by (induction cs arbitrary: mt s) (simp_all add: backend_defs Let_def)

lemma matchingLoop_positive:
  "0 < mt \<Longrightarrow> 0 < fst (matchingLoop com cs mt s)"
  by (induction cs arbitrary: mt s) (simp_all add: backend_defs Let_def)

lemma matchingLoop_lower:
  "n < mt \<Longrightarrow> n \<le> length (ciphertexts s) \<Longrightarrow> n < fst (matchingLoop com cs mt s)"
  by (induction cs arbitrary: mt s) (simp_all add: backend_defs Let_def)

text \<open>What a commitment adds to the matching total, in the 64-bit plaintexts.\<close>

lemma matchingLoop_value:
  assumes "com \<le> length (ciphertexts s)"
    and "\<forall>c \<in> set cs. minTrigger c \<le> length (ciphertexts s) \<and>
                    maxMatchingAmount c \<le> length (ciphertexts s)"
    and "decrypt s mt = Some (PUint64 x)"
  shows "decrypt (snd (matchingLoop com cs mt s)) (fst (matchingLoop com cs mt s)) =
    Some (PUint64 (x + sum_list (map
      (\<lambda>c. if plain64 s (minTrigger c) \<le> plain64 s com
           then plain64 s (maxMatchingAmount c) else 0) (filter isActive cs))))"
  using assms
proof (induction cs arbitrary: mt s x)
  case Nil
  then show ?case by simp
next
  case (Cons c cs)
  let ?n = "length (ciphertexts s)"
  show ?case
  proof (cases "isActive c")
    case False
    then show ?thesis using Cons.IH [of s mt x] Cons.prems by simp
  next
    case True
    define b where "b = (plain64 s (minTrigger c) \<le> plain64 s com)"
    define y where "y = (if b then plain64 s (maxMatchingAmount c) else 0)"
    define s4 where
      "s4 = s\<lparr>ciphertexts := ciphertexts s @ [PBool b, PUint64 0, PUint64 y, PUint64 (x + y)]\<rparr>"
    have mt: "mt \<le> ?n" "0 < mt"
      using Cons.prems(3) by (auto simp: decrypt_def split: if_splits)
    have mx: "maxMatchingAmount c \<le> ?n" using Cons.prems(2) by simp
    have pb: "plainBool (s\<lparr>ciphertexts := ciphertexts s @ [PBool b', PUint64 0]\<rparr>) (Suc ?n) = b'" for b'
      by (simp add: plainBool_def decrypt_def nth_append)
    have pz: "plain64 (s\<lparr>ciphertexts := ciphertexts s @ [PBool b', PUint64 0]\<rparr>) (Suc (Suc ?n)) = 0" for b'
      by (simp add: plain64_def decrypt_def nth_append)
    have pm: "plain64 (s\<lparr>ciphertexts := ciphertexts s @ [PBool b', PUint64 0]\<rparr>)
                (maxMatchingAmount c) = plain64 s (maxMatchingAmount c)" for b'
      using mx by (rule plain64_append)
    have pt: "plain64 (s\<lparr>ciphertexts := ciphertexts s @ [PBool b', PUint64 0, PUint64 y']\<rparr>) mt = x"
      for b' y'
      using plain64_append [OF mt(1), of "[PBool b', PUint64 0, PUint64 y']"] Cons.prems(3)
      by (simp add: plain64_def)
    have py: "plain64 (s\<lparr>ciphertexts := ciphertexts s @ [PBool b', PUint64 0, PUint64 y']\<rparr>)
                (Suc (Suc (Suc ?n))) = y'" for b' y'
      by (simp add: plain64_def decrypt_def nth_append)
    have step: "matchingLoop com (c # cs) mt s = matchingLoop com cs (Suc (Suc (Suc (Suc ?n)))) s4"
      unfolding s4_def y_def b_def
      using True by (simp add: backend_defs Let_def pb pz pm pt py)
    have d4: "decrypt s4 (Suc (Suc (Suc (Suc ?n)))) = Some (PUint64 (x + y))"
      by (simp add: s4_def decrypt_def nth_append)
    have len4: "length (ciphertexts s4) = ?n + 4" by (simp add: s4_def)
    have same: "h \<le> ?n \<Longrightarrow> plain64 s4 h = plain64 s h" for h
      unfolding s4_def by (rule plain64_append)
    have ih: "decrypt (snd (matchingLoop com cs (Suc (Suc (Suc (Suc ?n)))) s4))
                (fst (matchingLoop com cs (Suc (Suc (Suc (Suc ?n)))) s4)) =
       Some (PUint64 ((x + y) + sum_list (map
         (\<lambda>c. if plain64 s4 (minTrigger c) \<le> plain64 s4 com
              then plain64 s4 (maxMatchingAmount c) else 0) (filter isActive cs))))"
      using Cons.prems(1,2) by (intro Cons.IH d4) (auto simp: len4 trans_le_add1)
    have eq: "map (\<lambda>c. if plain64 s4 (minTrigger c) \<le> plain64 s4 com
              then plain64 s4 (maxMatchingAmount c) else 0) (filter isActive cs) =
          map (\<lambda>c. if plain64 s (minTrigger c) \<le> plain64 s com
              then plain64 s (maxMatchingAmount c) else 0) (filter isActive cs)"
      using Cons.prems(1,2) by (intro map_cong refl) (simp add: same)
    have "filter isActive (c # cs) = c # filter isActive cs"
      using True by simp
    then show ?thesis
      unfolding step ih eq by (simp add: y_def b_def add.assoc)
  qed
qed

subsection \<open>Settlement\<close>

lemma matchingLoop_same:
  "roundCounter (snd (matchingLoop com cs mt s)) = roundCounter s"
  "rounds (snd (matchingLoop com cs mt s)) = rounds s"
  "roundDonations (snd (matchingLoop com cs mt s)) = roundDonations s"
  "roundMatchingCommitments (snd (matchingLoop com cs mt s)) = roundMatchingCommitments s"
  "hasDonated (snd (matchingLoop com cs mt s)) = hasDonated s"
  "hasCommittedMatching (snd (matchingLoop com cs mt s)) = hasCommittedMatching s"
  "self (snd (matchingLoop com cs mt s)) = self s"
  "events (snd (matchingLoop com cs mt s)) = events s"
  "acl (snd (matchingLoop com cs mt s)) = acl s"
  "verify (snd (matchingLoop com cs mt s)) = verify s"
  using matchingLoop_frame [of com cs mt s] by auto

lemma settleRound_unfold:
  assumes "validRound s r" "\<not> settled (rounds s r)" "endTime (rounds s r) \<le> timestamp e"
  defines "L \<equiv> matchingLoop (encryptedCommunityTotal (rounds s r))
      (roundMatchingCommitments s r) (Suc (length (ciphertexts s)))
      (s\<lparr>rounds := (rounds s)(r := (rounds s r)\<lparr>settled := True\<rparr>),
         ciphertexts := ciphertexts s @ [PUint64 0]\<rparr>)"
  shows "settleRound e r s =
    (Inr (),
     (snd L)\<lparr>ciphertexts := ciphertexts (snd L) @
         [PUint64 (plain64 (snd L) (encryptedCommunityTotal (rounds s r)) +
                   plain64 (snd L) (fst L))],
       rounds := (rounds s)(r := (rounds s r)
         \<lparr>settled := True, encryptedMatchingTotal := fst L,
          encryptedFinalTotal := Suc (length (ciphertexts (snd L)))\<rparr>),
       acl := acl s @
         (Suc (length (ciphertexts (snd L))), self s) #
         map (\<lambda>d. (Suc (length (ciphertexts (snd L))), donor d)) (roundDonations s r) @
         map (\<lambda>c. (Suc (length (ciphertexts (snd L))), matcher c))
           (filter isActive (roundMatchingCommitments s r)),
       events := events s @ [RoundSettled r 0]\<rparr>)"
  using assms(1-3) unfolding L_def
  by (simp add: settleRound_def backend_defs Let_def case_prod_beta
      allowDonors_effect allowMatchers_effect matchingLoop_same)

lemma settleRound_effect:
  assumes "validRound s r" "\<not> settled (rounds s r)" "endTime (rounds s r) \<le> timestamp e"
  shows "\<exists>ext mt v. 0 < mt \<and> mt \<le> Suc (length (ciphertexts s) + length ext) \<and>
    length (ciphertexts s) < mt \<and>
    settleRound e r s =
    (Inr (),
     s\<lparr>rounds := (rounds s)(r := (rounds s r)
         \<lparr>settled := True, encryptedMatchingTotal := mt,
          encryptedFinalTotal := Suc (Suc (length (ciphertexts s) + length ext))\<rparr>),
       events := events s @ [RoundSettled r 0],
       ciphertexts := ciphertexts s @ PUint64 0 # ext @ [PUint64 v],
       acl := acl s @
         (Suc (Suc (length (ciphertexts s) + length ext)), self s) #
         map (\<lambda>d. (Suc (Suc (length (ciphertexts s) + length ext)), donor d))
           (roundDonations s r) @
         map (\<lambda>c. (Suc (Suc (length (ciphertexts s) + length ext)), matcher c))
           (filter isActive (roundMatchingCommitments s r))\<rparr>)"
proof -
  define s1 where "s1 = s\<lparr>rounds := (rounds s)(r := (rounds s r)\<lparr>settled := True\<rparr>),
         ciphertexts := ciphertexts s @ [PUint64 0]\<rparr>"
  define L where "L = matchingLoop (encryptedCommunityTotal (rounds s r))
      (roundMatchingCommitments s r) (Suc (length (ciphertexts s))) s1"
  obtain ext where ext: "snd L = s1\<lparr>ciphertexts := ciphertexts s1 @ ext\<rparr>"
    unfolding L_def using matchingLoop_frame by blast
  have pos: "0 < fst L"
    unfolding L_def by (rule matchingLoop_positive) simp
  have low: "length (ciphertexts s) < fst L"
    unfolding L_def by (rule matchingLoop_lower) (simp_all add: s1_def)
  have "fst L \<le> length (ciphertexts (snd L))"
    unfolding L_def by (rule matchingLoop_handle) (simp add: s1_def)
  then have le: "fst L \<le> Suc (length (ciphertexts s) + length ext)"
    by (simp add: ext s1_def)
  have "settleRound e r s =
    (Inr (),
     s\<lparr>rounds := (rounds s)(r := (rounds s r)
         \<lparr>settled := True, encryptedMatchingTotal := fst L,
          encryptedFinalTotal := Suc (Suc (length (ciphertexts s) + length ext))\<rparr>),
       events := events s @ [RoundSettled r 0],
       ciphertexts := ciphertexts s @ PUint64 0 # ext @
         [PUint64 (plain64 (snd L) (encryptedCommunityTotal (rounds s r)) +
                   plain64 (snd L) (fst L))],
       acl := acl s @
         (Suc (Suc (length (ciphertexts s) + length ext)), self s) #
         map (\<lambda>d. (Suc (Suc (length (ciphertexts s) + length ext)), donor d))
           (roundDonations s r) @
         map (\<lambda>c. (Suc (Suc (length (ciphertexts s) + length ext)), matcher c))
           (filter isActive (roundMatchingCommitments s r))\<rparr>)"
    unfolding settleRound_unfold [OF assms] L_def [symmetric] s1_def [symmetric]
    by (simp add: ext s1_def)
  with pos le low show ?thesis by blast
qed

section \<open>A failing call changes nothing\<close>

lemma createRound_failure:
  "createRound e nm descr duration s = (Inl err, s') \<Longrightarrow> s' = s"
  by (auto simp: createRound_def Let_def case_prod_beta split: if_splits)

lemma donate_failure:
  "donate e r enc pf s = (Inl err, s') \<Longrightarrow> s' = s"
  by (auto simp: donate_def Let_def case_prod_beta split: if_splits option.splits)

lemma commitMatching_failure:
  "commitMatching e r em et pm pt s = (Inl err, s') \<Longrightarrow> s' = s"
  by (auto simp: commitMatching_def Let_def case_prod_beta split: if_splits option.splits)

lemma settleRound_failure:
  "settleRound e r s = (Inl err, s') \<Longrightarrow> s' = s"
  by (auto simp: settleRound_def Let_def case_prod_beta split: if_splits)

lemma donate_success:
  assumes "fst (donate e r enc pf s) = Inr ()"
  shows "validRound s r \<and> \<not> settled (rounds s r) \<and> timestamp e < endTime (rounds s r) \<and>
         \<not> hasDonated s r (sender e) \<and> (\<exists>v. verify s enc pf (sender e) (self s) = Some v)"
  using assms
  by (auto simp: donate_def FHE_fromExternal_def split: if_splits option.splits)

lemma commitMatching_success:
  assumes "fst (commitMatching e r em et pm pt s) = Inr ()"
  shows "validRound s r \<and> \<not> settled (rounds s r) \<and> timestamp e < endTime (rounds s r) \<and>
         \<not> hasCommittedMatching s r (sender e) \<and>
         (\<exists>vmax vmin. verify s em pm (sender e) (self s) = Some vmax \<and>
                      verify s et pt (sender e) (self s) = Some vmin)"
  using assms
  by (auto simp: commitMatching_def FHE_fromExternal_def fresh_def
           split: if_splits option.splits)

lemma settleRound_success:
  assumes "fst (settleRound e r s) = Inr ()"
  shows "validRound s r \<and> \<not> settled (rounds s r) \<and> endTime (rounds s r) \<le> timestamp e"
  using assms by (auto simp: settleRound_def split: if_splits)

lemma createRound_success:
  assumes "fst (createRound e nm descr duration s) = Inr ()"
  shows "nm \<noteq> [] \<and> 0 < duration \<and> roundCounter s \<noteq> - 1 \<and>
         \<not> timestamp e + duration < timestamp e"
  using assms by (auto simp: createRound_def split: if_splits)

lemma sum_cases_unit:
  fixes x :: "error + unit"
  obtains err where "x = Inl err" | "x = Inr ()"
  by (cases x) auto

text \<open>The five ways a call can leave the state.\<close>

lemma exec_step:
  obtains (unchanged) "snd (exec e c s) = s"
  | (created) nm descr duration where "c = CreateRound nm descr duration"
      "roundCounter s \<noteq> - 1"
      "snd (exec e c s) =
       s\<lparr>roundCounter := roundCounter s + 1,
         rounds := (rounds s)(roundCounter s + 1 :=
           \<lparr>id = roundCounter s + 1, name = nm, description = descr,
            startTime = timestamp e, endTime = timestamp e + duration, settled = False,
            encryptedCommunityTotal = Suc (length (ciphertexts s)),
            encryptedMatchingTotal = Suc (Suc (length (ciphertexts s))),
            encryptedFinalTotal = Suc (Suc (Suc (length (ciphertexts s)))),
            publicFinalTotal = 0\<rparr>),
         events := events s @
           [DonationRoundCreated (roundCounter s + 1) nm (timestamp e + duration)],
         ciphertexts := ciphertexts s @ [PUint64 0, PUint64 0, PUint64 0],
         acl := acl s @ [(Suc (length (ciphertexts s)), self s),
                         (Suc (Suc (length (ciphertexts s))), self s),
                         (Suc (Suc (Suc (length (ciphertexts s)))), self s)]\<rparr>"
  | (donated) r enc pf v where "c = Donate r enc pf" "validRound s r"
      "\<not> hasDonated s r (sender e)"
      "verify s enc pf (sender e) (self s) = Some v"
      "snd (exec e c s) =
       s\<lparr>rounds := (rounds s)(r := (rounds s r)
           \<lparr>encryptedCommunityTotal := Suc (Suc (length (ciphertexts s)))\<rparr>),
         roundDonations := (roundDonations s)(r := roundDonations s r @
           [\<lparr>donor = sender e, amount = Suc (length (ciphertexts s)),
             donationTimestamp = timestamp e, donationRoundId = r\<rparr>]),
         hasDonated := (hasDonated s)(r := (hasDonated s r)(sender e := True)),
         events := events s @ [DonationMade r (sender e) (timestamp e)],
         ciphertexts := ciphertexts s @
           [PUint64 v,
            PUint64 (plain64 (s\<lparr>ciphertexts := ciphertexts s @ [PUint64 v]\<rparr>)
                       (encryptedCommunityTotal (rounds s r)) + v)],
         acl := acl s @
           [(Suc (length (ciphertexts s)), self s),
            (Suc (Suc (length (ciphertexts s))), self s),
            (Suc (length (ciphertexts s)), sender e),
            (Suc (Suc (length (ciphertexts s))), sender e)] @
           map (\<lambda>d. (Suc (Suc (length (ciphertexts s))), donor d)) (roundDonations s r)\<rparr>"
  | (committed) r em et pm pt vmax vmin where "c = CommitMatching r em et pm pt"
      "validRound s r"
      "snd (exec e c s) =
       s\<lparr>roundMatchingCommitments := (roundMatchingCommitments s)(r :=
           roundMatchingCommitments s r @
           [\<lparr>matcher = sender e, maxMatchingAmount = Suc (length (ciphertexts s)),
             minTrigger = Suc (Suc (length (ciphertexts s))), commitmentRoundId = r,
             commitmentTimestamp = timestamp e, isActive = True\<rparr>]),
         hasCommittedMatching :=
           (hasCommittedMatching s)(r := (hasCommittedMatching s r)(sender e := True)),
         events := events s @ [MatchingCommitted r (sender e) (timestamp e)],
         ciphertexts := ciphertexts s @ [PUint64 vmax, PUint64 vmin],
         acl := acl s @
           [(Suc (length (ciphertexts s)), self s),
            (Suc (Suc (length (ciphertexts s))), self s),
            (Suc (length (ciphertexts s)), sender e),
            (Suc (Suc (length (ciphertexts s))), sender e)]\<rparr>"
  | (settled) r ext mt v where "c = SettleRound r" "validRound s r"
      "endTime (rounds s r) \<le> timestamp e"
      "0 < mt" "mt \<le> Suc (length (ciphertexts s) + length ext)"
      "snd (exec e c s) =
       s\<lparr>rounds := (rounds s)(r := (rounds s r)
           \<lparr>settled := True, encryptedMatchingTotal := mt,
            encryptedFinalTotal := Suc (Suc (length (ciphertexts s) + length ext))\<rparr>),
         events := events s @ [RoundSettled r 0],
         ciphertexts := ciphertexts s @ PUint64 0 # ext @ [PUint64 v],
         acl := acl s @
           (Suc (Suc (length (ciphertexts s) + length ext)), self s) #
           map (\<lambda>d. (Suc (Suc (length (ciphertexts s) + length ext)), donor d))
             (roundDonations s r) @
           map (\<lambda>c. (Suc (Suc (length (ciphertexts s) + length ext)), matcher c))
             (filter isActive (roundMatchingCommitments s r))\<rparr>"
      "\<not> settled (rounds s r)" "length (ciphertexts s) < mt"
proof (cases c)
  case (CreateRound nm descr duration)
  show ?thesis
  proof (cases "fst (createRound e nm descr duration s)" rule: sum_cases_unit)
    case (1 err)
    then have "snd (exec e c s) = s"
      using createRound_failure [of e nm descr duration s err "snd (createRound e nm descr duration s)"]
      by (simp add: CreateRound case_prod_beta prod_eq_iff)
    then show ?thesis by (rule unchanged)
  next
    case 2
    note ok = createRound_success [OF 2]
    show ?thesis
      by (rule created [OF CreateRound])
         (use ok in \<open>simp_all add: CreateRound createRound_effect\<close>)
  qed
next
  case (Donate r enc pf)
  show ?thesis
  proof (cases "fst (donate e r enc pf s)" rule: sum_cases_unit)
    case (1 err)
    then have "snd (exec e c s) = s"
      using donate_failure [of e r enc pf s err "snd (donate e r enc pf s)"]
      by (simp add: Donate case_prod_beta prod_eq_iff)
    then show ?thesis by (rule unchanged)
  next
    case 2
    from donate_success [OF 2] obtain v where
      ok: "validRound s r" "\<not> settled (rounds s r)" "timestamp e < endTime (rounds s r)"
        "\<not> hasDonated s r (sender e)" "verify s enc pf (sender e) (self s) = Some v"
      by blast
    show ?thesis
      by (rule donated [OF Donate ok(1,4,5)])
         (simp add: Donate donate_effect [OF ok])
  qed
next
  case (CommitMatching r em et pm pt)
  show ?thesis
  proof (cases "fst (commitMatching e r em et pm pt s)" rule: sum_cases_unit)
    case (1 err)
    then have "snd (exec e c s) = s"
      using commitMatching_failure [of e r em et pm pt s err "snd (commitMatching e r em et pm pt s)"]
      by (simp add: CommitMatching case_prod_beta prod_eq_iff)
    then show ?thesis by (rule unchanged)
  next
    case 2
    from commitMatching_success [OF 2] obtain vmax vmin where
      ok: "validRound s r" "\<not> settled (rounds s r)" "timestamp e < endTime (rounds s r)"
        "\<not> hasCommittedMatching s r (sender e)"
        "verify s em pm (sender e) (self s) = Some vmax"
        "verify s et pt (sender e) (self s) = Some vmin"
      by blast
    show ?thesis
      by (rule committed [OF CommitMatching ok(1)])
         (simp add: CommitMatching commitMatching_effect [OF ok])
  qed
next
  case (SettleRound r)
  show ?thesis
  proof (cases "fst (settleRound e r s)" rule: sum_cases_unit)
    case (1 err)
    then have "snd (exec e c s) = s"
      using settleRound_failure [of e r s err "snd (settleRound e r s)"]
      by (simp add: SettleRound case_prod_beta prod_eq_iff)
    then show ?thesis by (rule unchanged)
  next
    case 2
    note ok = settleRound_success [OF 2]
    from ok have a: "validRound s r" "\<not> settled (rounds s r)"
      "endTime (rounds s r) \<le> timestamp e" by simp_all
    from settleRound_effect [OF a] obtain ext mt v where
      eff: "0 < mt" "mt \<le> Suc (length (ciphertexts s) + length ext)"
        "length (ciphertexts s) < mt"
        "settleRound e r s =
    (Inr (),
     s\<lparr>rounds := (rounds s)(r := (rounds s r)
         \<lparr>settled := True, encryptedMatchingTotal := mt,
          encryptedFinalTotal := Suc (Suc (length (ciphertexts s) + length ext))\<rparr>),
       events := events s @ [RoundSettled r 0],
       ciphertexts := ciphertexts s @ PUint64 0 # ext @ [PUint64 v],
       acl := acl s @
         (Suc (Suc (length (ciphertexts s) + length ext)), self s) #
         map (\<lambda>d. (Suc (Suc (length (ciphertexts s) + length ext)), donor d))
           (roundDonations s r) @
         map (\<lambda>c. (Suc (Suc (length (ciphertexts s) + length ext)), matcher c))
           (filter isActive (roundMatchingCommitments s r))\<rparr>)"
      by blast
    show ?thesis
      by (rule settled [OF SettleRound a(1,3) eff(1,2) _ a(2) eff(3)])
         (simp add: SettleRound eff(4))
  qed
qed (simp_all add: unchanged)

section \<open>The invariants are preserved\<close>

lemma word_succ_le:
  fixes c :: "'a::len word"
  assumes "c \<noteq> - 1"
  shows "(r \<le> c + 1) = (r \<le> c \<or> r = c + 1)" and "0 < c + 1" and "\<not> c + 1 \<le> c"
proof -
  have nz: "c + 1 \<noteq> 0" using assms by (simp add: add_eq_0_iff2)
  then have u: "unat (c + 1) = Suc (unat c)"
    using unatSuc [of c] by (simp add: add.commute)
  show "(r \<le> c + 1) = (r \<le> c \<or> r = c + 1)"
    by (auto simp: word_le_nat_alt u word_unat_eq_iff)
  show "0 < c + 1" using nz by (simp add: word_neq_0_conv)
  show "\<not> c + 1 \<le> c" by (simp add: word_le_nat_alt u)
qed

lemma validRound_created:
  assumes "roundCounter s \<noteq> - 1" "roundCounter s' = roundCounter s + 1"
  shows "validRound s' r = (validRound s r \<or> r = roundCounter s + 1)"
  using word_succ_le [OF assms(1)] assms(2) by (auto simp: validRound_def)

lemma validRound_next:
  assumes "roundCounter s \<noteq> - 1"
  shows "\<not> validRound s (roundCounter s + 1)"
  using word_succ_le [OF assms(1)] by (auto simp: validRound_def)

lemma aclValid_exec: "aclValid s \<Longrightarrow> aclValid (snd (exec e c s))"
proof (cases rule: exec_step [of e c s])
qed (auto simp: aclValid_def)

lemma handlesValid_grow:
  assumes "handlesValid s" "length (ciphertexts s) \<le> n"
  shows "(\<forall>r. encryptedCommunityTotal (rounds s r) \<le> n) \<and>
      (\<forall>r. encryptedMatchingTotal (rounds s r) \<le> n) \<and>
      (\<forall>r. encryptedFinalTotal (rounds s r) \<le> n) \<and>
      (\<forall>r. \<forall>c \<in> set (roundMatchingCommitments s r).
          minTrigger c \<le> n \<and> maxMatchingAmount c \<le> n) \<and>
      (\<forall>r. \<forall>d \<in> set (roundDonations s r). amount d \<le> n)"
  using assms unfolding handlesValid_def by (meson order_trans)

lemma handlesValid_exec:
  assumes "handlesValid s"
  shows "handlesValid (snd (exec e c s))"
proof (cases rule: exec_step [of e c s])
  case unchanged
  then show ?thesis using assms by simp
next
  case (created nm descr duration)
  show ?thesis
    using handlesValid_grow [OF assms, of "Suc (Suc (Suc (length (ciphertexts s))))"]
    by (auto simp: handlesValid_def created(3))
next
  case (donated r enc pf v)
  show ?thesis
    using handlesValid_grow [OF assms, of "Suc (Suc (length (ciphertexts s)))"]
    by (auto simp: handlesValid_def donated(5))
next
  case (committed r em et pm pt vmax vmin)
  show ?thesis
    using handlesValid_grow [OF assms, of "Suc (Suc (length (ciphertexts s)))"]
    by (auto simp: handlesValid_def committed(3))
next
  case (settled r ext mt v)
  show ?thesis
    using handlesValid_grow [OF assms, of "Suc (Suc (length (ciphertexts s) + length ext))"]
      settled(5)
    by (auto simp: handlesValid_def settled(6))
qed

lemma unusedEmpty_exec:
  assumes "unusedEmpty s"
  shows "unusedEmpty (snd (exec e c s))"
proof (cases rule: exec_step [of e c s])
  case unchanged
  then show ?thesis using assms by simp
next
  case (created nm descr duration)
  have v: "validRound (snd (exec e c s)) r = (validRound s r \<or> r = roundCounter s + 1)" for r
    by (rule validRound_created [OF created(2)]) (simp add: created(3))
  show ?thesis
    using assms unfolding unusedEmpty_def v by (simp add: created(3))
next
  case (donated r enc pf v)
  have v: "validRound (snd (exec e c s)) r' = validRound s r'" for r'
    by (simp add: validRound_def donated(5))
  show ?thesis
    using assms donated(2) unfolding unusedEmpty_def v by (auto simp: donated(5))
next
  case (committed r em et pm pt vmax vmin)
  have v: "validRound (snd (exec e c s)) r' = validRound s r'" for r'
    by (simp add: validRound_def committed(3))
  show ?thesis
    using assms unfolding unusedEmpty_def v by (simp add: committed(3))
next
  case (settled r ext mt v)
  have v: "validRound (snd (exec e c s)) r' = validRound s r'" for r'
    by (simp add: validRound_def settled(6))
  show ?thesis
    using assms settled(2) unfolding unusedEmpty_def v by (auto simp: settled(6))
qed

lemma donorsGranted_exec:
  assumes "donorsGranted s" "unusedEmpty s"
  shows "donorsGranted (snd (exec e c s))"
proof (cases rule: exec_step [of e c s])
  case unchanged
  then show ?thesis using assms by simp
next
  case (created nm descr duration)
  have v: "validRound (snd (exec e c s)) r = (validRound s r \<or> r = roundCounter s + 1)" for r
    by (rule validRound_created [OF created(2)]) (simp add: created(3))
  have "roundDonations s (roundCounter s + 1) = []"
    using assms(2) validRound_next [OF created(2)]
    by (simp add: unusedEmpty_def)
  then show ?thesis
    using assms(1) unfolding donorsGranted_def v
    by (auto simp: created(3) isAllowed_def)
next
  case (donated r enc pf v)
  have v: "validRound (snd (exec e c s)) r' = validRound s r'" for r'
    by (simp add: validRound_def donated(5))
  show ?thesis
    using assms(1) unfolding donorsGranted_def v
    by (auto simp: donated(5) isAllowed_def)
next
  case (committed r em et pm pt vmax vmin)
  have v: "validRound (snd (exec e c s)) r' = validRound s r'" for r'
    by (simp add: validRound_def committed(3))
  show ?thesis
    using assms(1) unfolding donorsGranted_def v
    by (auto simp: committed(3) isAllowed_def)
next
  case (settled r ext mt v)
  have v: "validRound (snd (exec e c s)) r' = validRound s r'" for r'
    by (simp add: validRound_def settled(6))
  show ?thesis
    using assms(1) unfolding donorsGranted_def v
    by (auto simp: settled(6) isAllowed_def)
qed

section \<open>Calls and histories\<close>

lemma settledPast_exec:
  assumes "settledPast t s" "t \<le> timestamp e"
  shows "settledPast (timestamp e) (snd (exec e c s))"
proof -
  have past: "settled (rounds s r) \<Longrightarrow> endTime (rounds s r) \<le> timestamp e" for r
    using assms unfolding settledPast_def by (meson order_trans)
  show ?thesis
  proof (cases rule: exec_step [of e c s])
    case unchanged
    then show ?thesis using past by (simp add: settledPast_def)
  next
    case (created nm descr duration)
    show ?thesis using past by (simp add: settledPast_def created(3))
  next
    case (donated r enc pf v)
    show ?thesis using past by (simp add: settledPast_def donated(5))
  next
    case (committed r em et pm pt vmax vmin)
    show ?thesis using past by (simp add: settledPast_def committed(3))
  next
    case (settled r ext mt v)
    show ?thesis using past settled(3) by (simp add: settledPast_def settled(6))
  qed
qed

lemma settledPast_run:
  assumes "settledPast t s" "chronological t (cs @ [(e, c)])"
  shows "\<exists>t'. settledPast t' (run cs s) \<and> t' \<le> timestamp e"
  using assms
proof (induction cs arbitrary: t s)
  case Nil
  then show ?case by auto
next
  case (Cons x cs)
  obtain e1 c1 where x: "x = (e1, c1)" by (cases x)
  from Cons.prems have "t \<le> timestamp e1" "chronological (timestamp e1) (cs @ [(e, c)])"
    by (simp_all add: x)
  with Cons.prems(1) Cons.IH [of "timestamp e1" "snd (exec e1 c1 s)"] settledPast_exec
  show ?case by (simp add: x)
qed

lemma settled_exec:
  assumes "validRound s r" "settled (rounds s r)"
  shows "validRound (snd (exec e c s)) r \<and> settled (rounds (snd (exec e c s)) r)"
proof (cases rule: exec_step [of e c s])
  case unchanged
  then show ?thesis using assms by simp
next
  case (created nm descr duration)
  have "r \<noteq> roundCounter s + 1"
    using validRound_next [OF created(2)] assms(1) by auto
  then show ?thesis
    using assms validRound_created [OF created(2), of "snd (exec e c s)" r]
    by (simp add: created(3))
next
  case (donated r' enc pf v)
  show ?thesis using assms by (auto simp: validRound_def donated(5))
next
  case (committed r' em et pm pt vmax vmin)
  show ?thesis using assms by (auto simp: validRound_def committed(3))
next
  case (settled r' ext mt v)
  show ?thesis using assms by (auto simp: validRound_def settled(6))
qed

lemma settled_run:
  "validRound s r \<Longrightarrow> settled (rounds s r) \<Longrightarrow>
   validRound (run cs s) r \<and> settled (rounds (run cs s) r)"
proof (induction cs arbitrary: s)
  case Nil
  then show ?case by simp
next
  case (Cons x cs)
  obtain e c where x: "x = (e, c)" by (cases x)
  show ?case using Cons.IH [of "snd (exec e c s)"] settled_exec [OF Cons.prems, of e c]
    by (simp add: x)
qed

lemma roundCounter_exec: "roundCounter s \<le> roundCounter (snd (exec e c s))"
proof (cases rule: exec_step [of e c s])
  case (created nm descr duration)
  show ?thesis using word_succ_le(1) [OF created(2), of "roundCounter s"]
    by (simp add: created(3))
qed simp_all

lemma roundCounter_run: "roundCounter s \<le> roundCounter (run cs s)"
proof (induction cs arbitrary: s)
  case Nil
  show ?case by simp
next
  case (Cons x cs)
  obtain e c where x: "x = (e, c)" by (cases x)
  show ?case using Cons.IH [of "snd (exec e c s)"] roundCounter_exec [of s e c]
    by (simp add: x)
qed

text \<open>Grants are issued on ciphertexts created in the same call only.\<close>

lemma grants_exec:
  assumes "h \<le> length (ciphertexts s)"
  shows "isAllowed (snd (exec e c s)) h a = isAllowed s h a"
    and "length (ciphertexts s) \<le> length (ciphertexts (snd (exec e c s)))"
    and "decrypt (snd (exec e c s)) h = decrypt s h"
proof -
  have "isAllowed (snd (exec e c s)) h a = isAllowed s h a \<and>
        length (ciphertexts s) \<le> length (ciphertexts (snd (exec e c s))) \<and>
        decrypt (snd (exec e c s)) h = decrypt s h"
  proof (cases rule: exec_step [of e c s])
    case unchanged
    then show ?thesis by simp
  next
    case (created nm descr duration)
    show ?thesis using assms decrypt_append [OF assms, of "[PUint64 0, PUint64 0, PUint64 0]"]
      by (auto simp: created(3) isAllowed_def decrypt_def)
  next
    case (donated r enc pf v)
    show ?thesis using assms
      by (auto simp: donated(5) isAllowed_def decrypt_def nth_append)
  next
    case (committed r em et pm pt vmax vmin)
    show ?thesis using assms
      by (auto simp: committed(3) isAllowed_def decrypt_def nth_append)
  next
    case (settled r ext mt v)
    show ?thesis using assms
      by (auto simp: settled(6) isAllowed_def decrypt_def nth_append)
  qed
  then show "isAllowed (snd (exec e c s)) h a = isAllowed s h a"
    and "length (ciphertexts s) \<le> length (ciphertexts (snd (exec e c s)))"
    and "decrypt (snd (exec e c s)) h = decrypt s h"
    by simp_all
qed

lemma grants_run:
  assumes "h \<le> length (ciphertexts s)"
  shows "isAllowed (run cs s) h a = isAllowed s h a \<and> decrypt (run cs s) h = decrypt s h"
  using assms
proof (induction cs arbitrary: s)
  case Nil
  show ?case by simp
next
  case (Cons x cs)
  obtain e c where x: "x = (e, c)" by (cases x)
  have "h \<le> length (ciphertexts (snd (exec e c s)))"
    using grants_exec(2) [OF Cons.prems, of e c] Cons.prems by simp
  from Cons.IH [OF this] show ?case
    by (simp add: x grants_exec(1,3) [OF Cons.prems])
qed

lemma commitments_exec:
  "m \<in> set (roundMatchingCommitments s r) \<Longrightarrow>
   m \<in> set (roundMatchingCommitments (snd (exec e c s)) r)"
  by (cases rule: exec_step [of e c s]) auto

lemma commitments_run:
  "m \<in> set (roundMatchingCommitments s r) \<Longrightarrow> m \<in> set (roundMatchingCommitments (run cs s) r)"
proof (induction cs arbitrary: s)
  case (Cons x cs)
  obtain e c where x: "x = (e, c)" by (cases x)
  show ?case using Cons.IH [of "snd (exec e c s)"] commitments_exec [OF Cons.prems]
    by (simp add: x)
qed simp

lemma validRound_exec:
  "validRound s r \<Longrightarrow> validRound (snd (exec e c s)) r"
  using roundCounter_exec [of s e c] by (auto simp: validRound_def)

lemma donorsMarked_exec:
  assumes "donorsMarked s"
  shows "donorsMarked (snd (exec e c s))"
proof (cases rule: exec_step [of e c s])
  case unchanged
  then show ?thesis using assms by simp
next
  case (created nm descr duration)
  show ?thesis using assms by (simp add: donorsMarked_def created(3))
next
  case (donated r enc pf v)
  have "sender e \<notin> donor ` set (roundDonations s r)"
    using assms donated(3) by (auto simp: donorsMarked_def)
  then show ?thesis using assms by (auto simp: donorsMarked_def donated(5))
next
  case (committed r em et pm pt vmax vmin)
  show ?thesis using assms by (simp add: donorsMarked_def committed(3))
next
  case (settled r ext mt v)
  show ?thesis using assms by (simp add: donorsMarked_def settled(6))
qed

lemma totalsTyped_exec:
  assumes "totalsTyped s" "handlesValid s"
  shows "totalsTyped (snd (exec e c s))"
proof -
  have le: "encryptedCommunityTotal (rounds s r) \<le> length (ciphertexts s)" for r
    using assms(2) by (simp add: handlesValid_def)
  have old: "validRound s r \<Longrightarrow>
       \<exists>x. decrypt (snd (exec e c s)) (encryptedCommunityTotal (rounds s r)) = Some (PUint64 x)"
    for r
    using assms(1) grants_exec(3) [OF le, where e = e and c = c] by (simp add: totalsTyped_def)
  show ?thesis
  proof (cases rule: exec_step [of e c s])
    case unchanged
    then show ?thesis using assms by simp
  next
    case (created nm descr duration)
    have v: "validRound (snd (exec e c s)) r = (validRound s r \<or> r = roundCounter s + 1)" for r
      by (rule validRound_created [OF created(2)]) (simp add: created(3))
    have new: "decrypt (snd (exec e c s)) (Suc (length (ciphertexts s))) = Some (PUint64 0)"
      by (simp add: created(3) decrypt_def nth_append)
    show ?thesis
      unfolding totalsTyped_def v using old new by (auto simp: created(3))
  next
    case (donated r enc pf v)
    have v: "validRound (snd (exec e c s)) r' = validRound s r'" for r'
      by (simp add: validRound_def donated(5))
    have new: "\<exists>x. decrypt (snd (exec e c s)) (Suc (Suc (length (ciphertexts s)))) =
                 Some (PUint64 x)"
      by (simp add: donated(5) decrypt_def nth_append)
    show ?thesis
      unfolding totalsTyped_def v using old new by (auto simp: donated(5))
  next
    case (committed r em et pm pt vmax vmin)
    have v: "validRound (snd (exec e c s)) r' = validRound s r'" for r'
      by (simp add: validRound_def committed(3))
    show ?thesis
      unfolding totalsTyped_def v using old by (auto simp: committed(3))
  next
    case (settled r ext mt v)
    have v: "validRound (snd (exec e c s)) r' = validRound s r'" for r'
      by (simp add: validRound_def settled(6))
    show ?thesis
      unfolding totalsTyped_def v using old by (auto simp: settled(6))
  qed
qed

text \<open>All invariants together, along a history.\<close>

lemma invariants_run:
  assumes "aclValid s" "handlesValid s" "unusedEmpty s" "donorsGranted s"
    "donorsMarked s" "totalsTyped s"
  shows "aclValid (run cs s) \<and> handlesValid (run cs s) \<and> unusedEmpty (run cs s) \<and>
         donorsGranted (run cs s) \<and> donorsMarked (run cs s) \<and> totalsTyped (run cs s)"
  using assms
proof (induction cs arbitrary: s)
  case Nil
  then show ?case by simp
next
  case (Cons x cs)
  obtain e c where x: "x = (e, c)" by (cases x)
  show ?case
    unfolding x run.simps
    by (intro Cons.IH aclValid_exec handlesValid_exec unusedEmpty_exec donorsGranted_exec
          donorsMarked_exec totalsTyped_exec Cons.prems)
qed

lemma invariants_deployed:
  "aclValid (deployed a v)" "handlesValid (deployed a v)" "unusedEmpty (deployed a v)"
  "donorsGranted (deployed a v)" "donorsMarked (deployed a v)" "totalsTyped (deployed a v)"
  by (simp_all add: aclValid_def handlesValid_def unusedEmpty_def donorsGranted_def
        donorsMarked_def totalsTyped_def deployed_def validRound_def zeroRound_def)

lemma invariants_reachable:
  "aclValid (run cs (deployed a v))" "handlesValid (run cs (deployed a v))"
  "unusedEmpty (run cs (deployed a v))" "donorsGranted (run cs (deployed a v))"
  "donorsMarked (run cs (deployed a v))" "totalsTyped (run cs (deployed a v))"
  using invariants_run [OF invariants_deployed, where cs = cs] by simp_all

lemma run_append: "run (cs @ ds) s = run ds (run cs s)"
  by (induction cs arbitrary: s) auto

lemma unat_succ:
  fixes c :: "'a::len word"
  assumes "c \<noteq> - 1"
  shows "unat (c + 1) = Suc (unat c)"
proof -
  have "c + 1 \<noteq> 0" using assms by (simp add: add_eq_0_iff2)
  then show ?thesis using unatSuc [of c] by (simp add: add.commute)
qed

lemma checked_add_uint256:
  fixes x y :: uint256
  shows "(\<not> x + y < x) = (unat x + unat y < 2 ^ 256)"
  using no_plus_overflow_unat_size [of x y] by (simp add: word_size not_less)

lemma donations_exec:
  "d \<in> set (roundDonations s r) \<Longrightarrow> d \<in> set (roundDonations (snd (exec e c s)) r)"
  by (cases rule: exec_step [of e c s]) auto

lemma donations_run:
  "d \<in> set (roundDonations s r) \<Longrightarrow> d \<in> set (roundDonations (run cs s) r)"
proof (induction cs arbitrary: s)
  case (Cons x cs)
  obtain e c where x: "x = (e, c)" by (cases x)
  show ?case using Cons.IH [of "snd (exec e c s)"] donations_exec [OF Cons.prems]
    by (simp add: x)
qed simp

lemma exec_Donate: "snd (exec e (Donate r enc ipf) s) = snd (donate e r enc ipf s)"
  by (simp add: case_prod_beta)

lemma matchingTotal_exec:
  assumes "validRound s r" "settled (rounds s r)"
  shows "encryptedMatchingTotal (rounds (snd (exec e c s)) r) =
         encryptedMatchingTotal (rounds s r)"
proof (cases rule: exec_step [of e c s])
  case unchanged
  then show ?thesis by simp
next
  case (created nm descr duration)
  have "r \<noteq> roundCounter s + 1"
    using validRound_next [OF created(2)] assms(1) by auto
  then show ?thesis by (simp add: created(3))
next
  case (donated r' enc ipf v)
  show ?thesis by (simp add: donated(5))
next
  case (committed r' em et pm pt vmax vmin)
  show ?thesis by (simp add: committed(3))
next
  case (settled r' ext mt v)
  have "r' \<noteq> r" using settled(7) assms(2) by auto
  then show ?thesis by (simp add: settled(6))
qed

lemma matchingTotal_run:
  "validRound s r \<Longrightarrow> settled (rounds s r) \<Longrightarrow>
   encryptedMatchingTotal (rounds (run cs s) r) = encryptedMatchingTotal (rounds s r)"
proof (induction cs arbitrary: s)
  case Nil
  show ?case by simp
next
  case (Cons x cs)
  obtain e c where x: "x = (e, c)" by (cases x)
  from settled_exec [OF Cons.prems, of e c]
  have "encryptedMatchingTotal (rounds (run cs (snd (exec e c s))) r) =
        encryptedMatchingTotal (rounds (snd (exec e c s)) r)"
    by (intro Cons.IH) simp_all
  then show ?case
    by (simp add: x matchingTotal_exec [OF Cons.prems])
qed

section \<open>Decrypted totals\<close>

lemma plain64_ciphertexts:
  assumes "ciphertexts s' = ciphertexts s @ xs" "h \<le> length (ciphertexts s)"
  shows "plain64 s' h = plain64 s h" and "decrypt s' h = decrypt s h"
  using assms by (cases h; simp add: plain64_def decrypt_def nth_append)+

lemma unat_sum_list_uint64:
  fixes ws :: "uint64 list"
  shows "unat (sum_list ws) = sum_list (map unat ws) mod 2 ^ 64"
proof (induction ws)
  case Nil
  show ?case by simp
next
  case (Cons w ws)
  have "unat (w + sum_list ws) = (unat w + unat (sum_list ws)) mod 2 ^ 64"
    by (simp add: unat_word_ariths)
  also have "\<dots> = (unat w + sum_list (map unat ws)) mod 2 ^ 64"
    unfolding Cons.IH by (simp add: mod_add_right_eq)
  finally show ?case by simp
qed

text \<open>The values \<open>settleRound\<close> leaves in the round.\<close>

lemma settleRound_values:
  assumes ok: "validRound s r" "\<not> settled (rounds s r)" "endTime (rounds s r) \<le> timestamp e"
    and inv: "handlesValid s"
  defines "s' \<equiv> snd (settleRound e r s)"
    and "com \<equiv> encryptedCommunityTotal (rounds s r)"
  defines "w \<equiv> sum_list (map (\<lambda>c. if plain64 s (minTrigger c) \<le> plain64 s com
                                   then plain64 s (maxMatchingAmount c) else 0)
                            (filter isActive (roundMatchingCommitments s r)))"
  shows "decrypt s' (encryptedMatchingTotal (rounds s' r)) = Some (PUint64 w)"
    and "decrypt s' (encryptedFinalTotal (rounds s' r)) = Some (PUint64 (plain64 s com + w))"
    and "encryptedCommunityTotal (rounds s' r) = com"
    and "plain64 s' com = plain64 s com"
proof -
  define s1 where "s1 = s\<lparr>rounds := (rounds s)(r := (rounds s r)\<lparr>settled := True\<rparr>),
         ciphertexts := ciphertexts s @ [PUint64 0]\<rparr>"
  define L where "L = matchingLoop com (roundMatchingCommitments s r)
                        (Suc (length (ciphertexts s))) s1"
  have c1: "ciphertexts s1 = ciphertexts s @ [PUint64 0]" by (simp add: s1_def)
  have com: "com \<le> length (ciphertexts s)"
    using inv by (simp add: handlesValid_def com_def)
  have cs: "\<forall>c \<in> set (roundMatchingCommitments s r).
              minTrigger c \<le> length (ciphertexts s) \<and>
              maxMatchingAmount c \<le> length (ciphertexts s)"
    using inv by (simp add: handlesValid_def)
  have same: "h \<le> length (ciphertexts s) \<Longrightarrow> plain64 s1 h = plain64 s h" for h
    by (rule plain64_ciphertexts(1) [OF c1])
  have val: "decrypt (snd L) (fst L) =
    Some (PUint64 (0 + sum_list (map
      (\<lambda>c. if plain64 s1 (minTrigger c) \<le> plain64 s1 com
           then plain64 s1 (maxMatchingAmount c) else 0)
      (filter isActive (roundMatchingCommitments s r)))))"
    unfolding L_def
  proof (rule matchingLoop_value)
    show "com \<le> length (ciphertexts s1)" using com by (simp add: c1)
    show "\<forall>c \<in> set (roundMatchingCommitments s r).
            minTrigger c \<le> length (ciphertexts s1) \<and>
            maxMatchingAmount c \<le> length (ciphertexts s1)"
      using cs by (auto simp: c1)
    show "decrypt s1 (Suc (length (ciphertexts s))) = Some (PUint64 0)"
      by (simp add: decrypt_def c1 nth_append)
  qed
  have eq: "map (\<lambda>c. if plain64 s1 (minTrigger c) \<le> plain64 s1 com
           then plain64 s1 (maxMatchingAmount c) else 0)
          (filter isActive (roundMatchingCommitments s r)) =
        map (\<lambda>c. if plain64 s (minTrigger c) \<le> plain64 s com
           then plain64 s (maxMatchingAmount c) else 0)
          (filter isActive (roundMatchingCommitments s r))"
    using cs com by (intro map_cong refl) (simp add: same)
  have valw: "decrypt (snd L) (fst L) = Some (PUint64 w)"
    using val unfolding eq w_def by simp
  obtain ext where ext: "snd L = s1\<lparr>ciphertexts := ciphertexts s1 @ ext\<rparr>"
    unfolding L_def using matchingLoop_frame by blast
  have cL: "ciphertexts (snd L) = ciphertexts s @ (PUint64 0 # ext)"
    by (simp add: ext c1)
  have hL: "fst L \<le> length (ciphertexts (snd L))"
    unfolding L_def by (rule matchingLoop_handle) (simp add: c1)
  have pcom: "plain64 (snd L) com = plain64 s com"
    by (rule plain64_ciphertexts(1) [OF cL com])
  have pw: "plain64 (snd L) (fst L) = w"
    using valw by (simp add: plain64_def)
  have unf: "settleRound e r s =
    (Inr (),
     (snd L)\<lparr>ciphertexts := ciphertexts (snd L) @
         [PUint64 (plain64 (snd L) com + plain64 (snd L) (fst L))],
       rounds := (rounds s)(r := (rounds s r)
         \<lparr>settled := True, encryptedMatchingTotal := fst L,
          encryptedFinalTotal := Suc (length (ciphertexts (snd L)))\<rparr>),
       acl := acl s @
         (Suc (length (ciphertexts (snd L))), self s) #
         map (\<lambda>d. (Suc (length (ciphertexts (snd L))), donor d)) (roundDonations s r) @
         map (\<lambda>c. (Suc (length (ciphertexts (snd L))), matcher c))
           (filter isActive (roundMatchingCommitments s r)),
       events := events s @ [RoundSettled r 0]\<rparr>)"
    unfolding L_def s1_def com_def by (rule settleRound_unfold [OF ok])
  have cs': "ciphertexts s' = ciphertexts (snd L) @ [PUint64 (plain64 s com + w)]"
    unfolding s'_def unf by (simp add: pcom pw)
  have r': "rounds s' r = (rounds s r)
         \<lparr>settled := True, encryptedMatchingTotal := fst L,
          encryptedFinalTotal := Suc (length (ciphertexts (snd L)))\<rparr>"
    unfolding s'_def unf by simp
  show "decrypt s' (encryptedMatchingTotal (rounds s' r)) = Some (PUint64 w)"
    using plain64_ciphertexts(2) [OF cs' hL] valw by (simp add: r')
  show "decrypt s' (encryptedFinalTotal (rounds s' r)) = Some (PUint64 (plain64 s com + w))"
    by (simp add: r' decrypt_def cs' nth_append)
  show "encryptedCommunityTotal (rounds s' r) = com"
    by (simp add: r' com_def)
  have "ciphertexts s' = ciphertexts s @ (PUint64 0 # ext @ [PUint64 (plain64 s com + w)])"
    by (simp add: cs' cL)
  from plain64_ciphertexts(1) [OF this com]
  show "plain64 s' com = plain64 s com" .
qed

text \<open>What one call adds to the donors and to the community total of a round.\<close>

lemma donation_step:
  assumes inv: "handlesValid s" "unusedEmpty s"
  shows "map donor (roundDonations (snd (exec e c s)) r) =
           map donor (roundDonations s r) @ map fst (successfulDonations r [(e, c)] s) \<and>
         plain64 (snd (exec e c s)) (encryptedCommunityTotal (rounds (snd (exec e c s)) r)) =
           plain64 s (encryptedCommunityTotal (rounds s r)) +
           sum_list (map snd (successfulDonations r [(e, c)] s))"
proof -
  define s' where "s' = snd (exec e c s)"
  have le: "encryptedCommunityTotal (rounds s r') \<le> length (ciphertexts s)" for r'
    using inv(1) by (simp add: handlesValid_def)
  have keep: "plain64 s' (encryptedCommunityTotal (rounds s r)) =
              plain64 s (encryptedCommunityTotal (rounds s r))"
    if "ciphertexts s' = ciphertexts s @ xs" for xs
    using that le [of r] by (rule plain64_ciphertexts(1))
  have new: "plain64 s' (Suc (length (ciphertexts s) + length xs)) = x"
    if "ciphertexts s' = ciphertexts s @ xs @ PUint64 x # ys" for xs x ys
    by (simp add: plain64_def decrypt_def that nth_append)
  have "map donor (roundDonations s' r) =
           map donor (roundDonations s r) @ map fst (successfulDonations r [(e, c)] s) \<and>
         plain64 s' (encryptedCommunityTotal (rounds s' r)) =
           plain64 s (encryptedCommunityTotal (rounds s r)) +
           sum_list (map snd (successfulDonations r [(e, c)] s))"
  proof (cases "\<exists>r' enc ipf. c = Donate r' enc ipf")
    case True
    then obtain r' enc ipf where c: "c = Donate r' enc ipf" by blast
    show ?thesis
    proof (cases "fst (donate e r' enc ipf s)" rule: sum_cases_unit)
      case (1 err)
      then have "snd (donate e r' enc ipf s) = s"
        using donate_failure [of e r' enc ipf s err "snd (donate e r' enc ipf s)"]
        by (simp add: prod_eq_iff)
      then show ?thesis using 1 by (simp add: s'_def c case_prod_beta)
    next
      case 2
      from donate_success [OF 2] obtain x where
        ok: "validRound s r'" "\<not> settled (rounds s r')" "timestamp e < endTime (rounds s r')"
          "\<not> hasDonated s r' (sender e)" "verify s enc ipf (sender e) (self s) = Some x"
        by blast
      have p: "plain64 (s\<lparr>ciphertexts := ciphertexts s @ [PUint64 x]\<rparr>)
                 (encryptedCommunityTotal (rounds s r')) =
               plain64 s (encryptedCommunityTotal (rounds s r'))"
        by (rule plain64_append [OF le])
      have s'_eq: "s' = snd (donate e r' enc ipf s)"
        by (simp only: s'_def c exec_Donate)
      have cs: "ciphertexts s' = ciphertexts s @ [PUint64 x] @
          PUint64 (plain64 s (encryptedCommunityTotal (rounds s r')) + x) # []"
        unfolding s'_eq donate_effect [OF ok] by (simp add: p)
      have rs: "rounds s' = (rounds s)(r' := (rounds s r')
           \<lparr>encryptedCommunityTotal := Suc (Suc (length (ciphertexts s)))\<rparr>)"
        "roundDonations s' = (roundDonations s)(r' := roundDonations s r' @
           [\<lparr>donor = sender e, amount = Suc (length (ciphertexts s)),
             donationTimestamp = timestamp e, donationRoundId = r'\<rparr>])"
        unfolding s'_eq donate_effect [OF ok] by simp_all
      show ?thesis
      proof (cases "r' = r")
        case True
        have "plain64 s' (Suc (Suc (length (ciphertexts s)))) =
              plain64 s (encryptedCommunityTotal (rounds s r')) + x"
          using new [OF cs] by simp
        then show ?thesis
          using 2 by (simp add: c rs True ok(5) [unfolded True])
      next
        case False
        then show ?thesis
          using keep [OF cs] by (simp add: c rs)
      qed
    qed
  next
    case False
    then have none: "successfulDonations r [(e, c)] s = []"
      by (cases c) simp_all
    show ?thesis
    proof (cases rule: exec_step [of e c s])
      case unchanged
      then show ?thesis unfolding none by (simp add: s'_def)
    next
      case (created nm descr duration)
      have "\<not> validRound s (roundCounter s + 1)"
        by (rule validRound_next [OF created(2)])
      then have "rounds s (roundCounter s + 1) = zeroRound"
        using inv(2) by (simp add: unusedEmpty_def)
      then have z: "plain64 s (encryptedCommunityTotal (rounds s (roundCounter s + 1))) = 0"
        by (simp add: zeroRound_def plain64_def decrypt_def)
      have cs: "ciphertexts s' = ciphertexts s @ [] @ PUint64 0 # [PUint64 0, PUint64 0]"
        unfolding s'_def created(3) by simp
      have rs: "encryptedCommunityTotal (rounds s' q) =
                  (if q = roundCounter s + 1 then Suc (length (ciphertexts s))
                   else encryptedCommunityTotal (rounds s q))"
        "roundDonations s' = roundDonations s" for q
        unfolding s'_def created(3) by simp_all
      show ?thesis
      proof (cases "r = roundCounter s + 1")
        case True
        then show ?thesis using new [OF cs] z unfolding none by (simp add: rs)
      next
        case False
        then show ?thesis using keep [OF cs] unfolding none by (simp add: rs)
      qed
    next
      case (donated r' enc ipf x)
      then show ?thesis using False by simp
    next
      case (committed r' em et pm pt vmax vmin)
      have "ciphertexts s' = ciphertexts s @ [PUint64 vmax, PUint64 vmin]"
        "rounds s' = rounds s" "roundDonations s' = roundDonations s"
        unfolding s'_def committed(3) by simp_all
      then show ?thesis using keep unfolding none by simp
    next
      case (settled r' ext mt x)
      have "ciphertexts s' = ciphertexts s @ PUint64 0 # ext @ [PUint64 x]"
        "encryptedCommunityTotal (rounds s' r) = encryptedCommunityTotal (rounds s r)"
        "roundDonations s' = roundDonations s"
        unfolding s'_def settled(6) by simp_all
      then show ?thesis using keep unfolding none by simp
    qed
  qed
  then show ?thesis by (simp only: s'_def)
qed

lemma donation_run:
  assumes "aclValid s" "handlesValid s" "unusedEmpty s" "donorsGranted s"
    "donorsMarked s" "totalsTyped s"
  shows "map donor (roundDonations (run cs s) r) =
           map donor (roundDonations s r) @ map fst (successfulDonations r cs s) \<and>
         plain64 (run cs s) (encryptedCommunityTotal (rounds (run cs s) r)) =
           plain64 s (encryptedCommunityTotal (rounds s r)) +
           sum_list (map snd (successfulDonations r cs s))"
  using assms
proof (induction cs arbitrary: s)
  case Nil
  show ?case by simp
next
  case (Cons x cs)
  obtain e c where x: "x = (e, c)" by (cases x)
  define s1 where "s1 = snd (exec e c s)"
  have s1: "s1 = run [(e, c)] s" by (simp add: s1_def)
  have inv1: "aclValid s1" "handlesValid s1" "unusedEmpty s1" "donorsGranted s1"
    "donorsMarked s1" "totalsTyped s1"
    unfolding s1 using invariants_run [OF Cons.prems, of "[(e, c)]"] by simp_all
  have split: "successfulDonations r (x # cs) s =
               successfulDonations r [(e, c)] s @ successfulDonations r cs s1"
    by (simp add: x s1_def)
  have step: "map donor (roundDonations s1 r) =
           map donor (roundDonations s r) @ map fst (successfulDonations r [(e, c)] s)"
    "plain64 s1 (encryptedCommunityTotal (rounds s1 r)) =
           plain64 s (encryptedCommunityTotal (rounds s r)) +
           sum_list (map snd (successfulDonations r [(e, c)] s))"
    unfolding s1_def using donation_step [OF Cons.prems(2,3), of e c r] by simp_all
  have "run (x # cs) s = run cs s1" by (simp add: x s1_def)
  then show ?case
    using Cons.IH [OF inv1] unfolding split by (simp add: step add.assoc)
qed

section \<open>The sample states, evaluated\<close>

lemmas eval_defs = createRound_def donate_def commitMatching_def settleRound_def
  FHE_asEuint64_def FHE_add_def FHE_ge_def FHE_select_def FHE_fromExternal_def
  FHE_allow_def FHE_allowThis_def fresh_def emit_def validRound_def
  plain64_def plainBool_def decrypt_def Let_def
  sampleStart_def by_at_def sampleVerify_def deployed_def

lemma sampleOpen_eval:
  "sampleOpen =
   \<lparr>roundCounter = 1,
    rounds = (\<lambda>_. zeroRound)
      (1 := \<lparr>id = 1, name = ''Climate'', description = ''Support climate action'',
             startTime = 0, endTime = 86400, settled = False,
             encryptedCommunityTotal = 7, encryptedMatchingTotal = 2,
             encryptedFinalTotal = 3, publicFinalTotal = 0\<rparr>),
    roundDonations = (\<lambda>_. [])
      (1 := [\<lparr>donor = 2, amount = 4, donationTimestamp = 10, donationRoundId = 1\<rparr>,
             \<lparr>donor = 3, amount = 6, donationTimestamp = 20, donationRoundId = 1\<rparr>]),
    roundMatchingCommitments = (\<lambda>_. [])
      (1 := [\<lparr>matcher = 4, maxMatchingAmount = 8, minTrigger = 9, commitmentRoundId = 1,
              commitmentTimestamp = 30, isActive = True\<rparr>]),
    hasDonated = (\<lambda>_ _. False)(1 := (\<lambda>_. False)(2 := True, 3 := True)),
    hasCommittedMatching = (\<lambda>_ _. False)(1 := (\<lambda>_. False)(4 := True)),
    self = 99,
    events = [DonationRoundCreated 1 ''Climate'' 86400, DonationMade 1 2 10,
              DonationMade 1 3 20, MatchingCommitted 1 4 30],
    ciphertexts = [PUint64 0, PUint64 0, PUint64 0, PUint64 30000, PUint64 30000,
                   PUint64 50000, PUint64 80000, PUint64 50000, PUint64 80000],
    acl = [(1, 99), (2, 99), (3, 99), (4, 99), (5, 99), (4, 2), (5, 2), (6, 99), (7, 99),
           (6, 3), (7, 3), (7, 2), (8, 99), (9, 99), (8, 4), (9, 4)],
    verify = sampleVerify\<rparr>"
  by (simp add: sampleOpen_def sampleHistory_def eval_defs) (simp add: fun_eq_iff)

lemma sampleSettled_eval:
  "sampleSettled =
   \<lparr>roundCounter = 1,
    rounds = (\<lambda>_. zeroRound)
      (1 := \<lparr>id = 1, name = ''Climate'', description = ''Support climate action'',
             startTime = 0, endTime = 86400, settled = True,
             encryptedCommunityTotal = 7, encryptedMatchingTotal = 14,
             encryptedFinalTotal = 15, publicFinalTotal = 0\<rparr>),
    roundDonations = (\<lambda>_. [])
      (1 := [\<lparr>donor = 2, amount = 4, donationTimestamp = 10, donationRoundId = 1\<rparr>,
             \<lparr>donor = 3, amount = 6, donationTimestamp = 20, donationRoundId = 1\<rparr>]),
    roundMatchingCommitments = (\<lambda>_. [])
      (1 := [\<lparr>matcher = 4, maxMatchingAmount = 8, minTrigger = 9, commitmentRoundId = 1,
              commitmentTimestamp = 30, isActive = True\<rparr>]),
    hasDonated = (\<lambda>_ _. False)(1 := (\<lambda>_. False)(2 := True, 3 := True)),
    hasCommittedMatching = (\<lambda>_ _. False)(1 := (\<lambda>_. False)(4 := True)),
    self = 99,
    events = [DonationRoundCreated 1 ''Climate'' 86400, DonationMade 1 2 10,
              DonationMade 1 3 20, MatchingCommitted 1 4 30, RoundSettled 1 0],
    ciphertexts = [PUint64 0, PUint64 0, PUint64 0, PUint64 30000, PUint64 30000,
                   PUint64 50000, PUint64 80000, PUint64 50000, PUint64 80000,
                   PUint64 0, PBool True, PUint64 0, PUint64 50000, PUint64 50000,
                   PUint64 130000],
    acl = [(1, 99), (2, 99), (3, 99), (4, 99), (5, 99), (4, 2), (5, 2), (6, 99), (7, 99),
           (6, 3), (7, 3), (7, 2), (8, 99), (9, 99), (8, 4), (9, 4),
           (15, 99), (15, 2), (15, 3), (15, 4)],
    verify = sampleVerify\<rparr>"
  unfolding sampleSettled_def sampleOpen_eval
  by (simp add: eval_defs) (simp add: fun_eq_iff)

lemma belowOpen_eval:
  "belowOpen =
   \<lparr>roundCounter = 1,
    rounds = (\<lambda>_. zeroRound)
      (1 := \<lparr>id = 1, name = ''Climate'', description = ''Support climate action'',
             startTime = 0, endTime = 86400, settled = False,
             encryptedCommunityTotal = 7, encryptedMatchingTotal = 2,
             encryptedFinalTotal = 3, publicFinalTotal = 0\<rparr>),
    roundDonations = (\<lambda>_. [])
      (1 := [\<lparr>donor = 2, amount = 4, donationTimestamp = 10, donationRoundId = 1\<rparr>,
             \<lparr>donor = 3, amount = 6, donationTimestamp = 20, donationRoundId = 1\<rparr>]),
    roundMatchingCommitments = (\<lambda>_. [])
      (1 := [\<lparr>matcher = 4, maxMatchingAmount = 8, minTrigger = 9, commitmentRoundId = 1,
              commitmentTimestamp = 30, isActive = True\<rparr>]),
    hasDonated = (\<lambda>_ _. False)(1 := (\<lambda>_. False)(2 := True, 3 := True)),
    hasCommittedMatching = (\<lambda>_ _. False)(1 := (\<lambda>_. False)(4 := True)),
    self = 99,
    events = [DonationRoundCreated 1 ''Climate'' 86400, DonationMade 1 2 10,
              DonationMade 1 3 20, MatchingCommitted 1 4 30],
    ciphertexts = [PUint64 0, PUint64 0, PUint64 0, PUint64 30000, PUint64 30000,
                   PUint64 40000, PUint64 70000, PUint64 50000, PUint64 80000],
    acl = [(1, 99), (2, 99), (3, 99), (4, 99), (5, 99), (4, 2), (5, 2), (6, 99), (7, 99),
           (6, 3), (7, 3), (7, 2), (8, 99), (9, 99), (8, 4), (9, 4)],
    verify = sampleVerify\<rparr>"
  by (simp add: belowOpen_def belowHistory_def eval_defs) (simp add: fun_eq_iff)

lemma overflowOpen_eval:
  "overflowOpen =
   \<lparr>roundCounter = 1,
    rounds = (\<lambda>_. zeroRound)
      (1 := \<lparr>id = 1, name = ''Climate'', description = ''Support climate action'',
             startTime = 0, endTime = 86400, settled = False,
             encryptedCommunityTotal = 5, encryptedMatchingTotal = 2,
             encryptedFinalTotal = 3, publicFinalTotal = 0\<rparr>),
    roundDonations = (\<lambda>_. [])
      (1 := [\<lparr>donor = 2, amount = 4, donationTimestamp = 10, donationRoundId = 1\<rparr>]),
    roundMatchingCommitments = (\<lambda>_. [])
      (1 := [\<lparr>matcher = 4, maxMatchingAmount = 6, minTrigger = 7, commitmentRoundId = 1,
              commitmentTimestamp = 30, isActive = True\<rparr>]),
    hasDonated = (\<lambda>_ _. False)(1 := (\<lambda>_. False)(2 := True)),
    hasCommittedMatching = (\<lambda>_ _. False)(1 := (\<lambda>_. False)(4 := True)),
    self = 99,
    events = [DonationRoundCreated 1 ''Climate'' 86400, DonationMade 1 2 10,
              MatchingCommitted 1 4 30],
    ciphertexts = [PUint64 0, PUint64 0, PUint64 0, PUint64 18446744073709551615,
                   PUint64 18446744073709551615, PUint64 1, PUint64 0],
    acl = [(1, 99), (2, 99), (3, 99), (4, 99), (5, 99), (4, 2), (5, 2), (6, 99), (7, 99),
           (6, 4), (7, 4)],
    verify = sampleVerify\<rparr>"
  by (simp add: overflowOpen_def overflowHistory_def eval_defs) (simp add: fun_eq_iff)

section \<open>The claims\<close>

text \<open>
  C4. \<open>donate\<close> checks that the round exists, that it is not settled, that the
  current time is before its end and that the caller has not donated to it, in this
  order, and the first check that fails decides the error: NotFound, AlreadySettled,
  RoundEnded, DuplicateDonation. A call that fails, for these or any other reason,
  leaves the state as it was: no donation is appended, the donation count, the community
  total and the donor marks are unchanged.
\<close>

theorem donate_preconditions_in_order:
  "(\<not> (0 < r \<and> r \<le> getRoundCount s) \<longrightarrow>
      donate e r enc ipf s = (Inl NotFound, s)) \<and>
   (0 < r \<and> r \<le> getRoundCount s \<and> settled (rounds s r) \<longrightarrow>
      donate e r enc ipf s = (Inl AlreadySettled, s)) \<and>
   (0 < r \<and> r \<le> getRoundCount s \<and> \<not> settled (rounds s r) \<and>
    \<not> timestamp e < endTime (rounds s r) \<longrightarrow>
      donate e r enc ipf s = (Inl RoundEnded, s)) \<and>
   (0 < r \<and> r \<le> getRoundCount s \<and> \<not> settled (rounds s r) \<and>
    timestamp e < endTime (rounds s r) \<and> hasDonated s r (sender e) \<longrightarrow>
      donate e r enc ipf s = (Inl DuplicateDonation, s)) \<and>
   (\<forall>err. fst (donate e r enc ipf s) = Inl err \<longrightarrow>
      snd (donate e r enc ipf s) = s \<and>
      roundDonations (snd (donate e r enc ipf s)) = roundDonations s \<and>
      getDonationCount r (snd (donate e r enc ipf s)) = getDonationCount r s \<and>
      rounds (snd (donate e r enc ipf s)) = rounds s \<and>
      hasDonated (snd (donate e r enc ipf s)) = hasDonated s)"
proof -
  have "snd (donate e r enc ipf s) = s" if "fst (donate e r enc ipf s) = Inl err" for err
    using that donate_failure [of e r enc ipf s err "snd (donate e r enc ipf s)"]
    by (simp add: prod_eq_iff)
  then show ?thesis
    by (simp add: donate_def validRound_def getRoundCount_def)
qed

theorem donate_preconditions_in_order_witness:
  "\<not> (0 < (7::uint256) \<and> 7 \<le> getRoundCount sampleOpen) \<and>
   donate (by_at 2 40) 7 5 [1] sampleOpen = (Inl NotFound, sampleOpen) \<and>
   (0 < (1::uint256) \<and> 1 \<le> getRoundCount sampleSettled \<and> settled (rounds sampleSettled 1)) \<and>
   donate (by_at 2 90000) 1 5 [1] sampleSettled = (Inl AlreadySettled, sampleSettled) \<and>
   (0 < (1::uint256) \<and> 1 \<le> getRoundCount sampleOpen \<and> \<not> settled (rounds sampleOpen 1) \<and>
    \<not> timestamp (by_at 2 86400) < endTime (rounds sampleOpen 1)) \<and>
   donate (by_at 2 86400) 1 5 [1] sampleOpen = (Inl RoundEnded, sampleOpen) \<and>
   (timestamp (by_at 2 40) < endTime (rounds sampleOpen 1) \<and>
    hasDonated sampleOpen 1 (sender (by_at 2 40))) \<and>
   donate (by_at 2 40) 1 5 [1] sampleOpen = (Inl DuplicateDonation, sampleOpen) \<and>
   fst (donate (by_at 6 40) 1 5 [] sampleOpen) = Inl InvalidProof \<and>
   snd (donate (by_at 6 40) 1 5 [] sampleOpen) = sampleOpen"
proof -
  have h1: "\<not> (0 < (7::uint256) \<and> 7 \<le> getRoundCount sampleOpen)"
    by (simp add: getRoundCount_def sampleOpen_eval word_le_nat_alt)
  have h2: "0 < (1::uint256) \<and> 1 \<le> getRoundCount sampleSettled \<and>
            settled (rounds sampleSettled 1)"
    by (simp add: getRoundCount_def sampleSettled_eval)
  have h3: "0 < (1::uint256) \<and> 1 \<le> getRoundCount sampleOpen \<and>
            \<not> settled (rounds sampleOpen 1) \<and>
            \<not> timestamp (by_at 2 86400) < endTime (rounds sampleOpen 1)"
    by (simp add: getRoundCount_def sampleOpen_eval by_at_def)
  have h4: "timestamp (by_at 2 40) < endTime (rounds sampleOpen 1) \<and>
            hasDonated sampleOpen 1 (sender (by_at 2 40))"
    by (simp add: sampleOpen_eval by_at_def)
  have h5: "fst (donate (by_at 6 40) 1 5 [] sampleOpen) = Inl InvalidProof"
    by (simp add: sampleOpen_eval by_at_def donate_def validRound_def
          FHE_fromExternal_def sampleVerify_def)
  have c1: "donate (by_at 2 40) 7 5 [1] sampleOpen = (Inl NotFound, sampleOpen)"
    using donate_preconditions_in_order [of 7 sampleOpen "by_at 2 40" 5 "[1]"] h1
    by blast
  have c2: "donate (by_at 2 90000) 1 5 [1] sampleSettled = (Inl AlreadySettled, sampleSettled)"
    using donate_preconditions_in_order [of 1 sampleSettled "by_at 2 90000" 5 "[1]"] h2
    by blast
  have c3: "donate (by_at 2 86400) 1 5 [1] sampleOpen = (Inl RoundEnded, sampleOpen)"
    using donate_preconditions_in_order [of 1 sampleOpen "by_at 2 86400" 5 "[1]"] h3
    by blast
  have c4: "donate (by_at 2 40) 1 5 [1] sampleOpen = (Inl DuplicateDonation, sampleOpen)"
    using donate_preconditions_in_order [of 1 sampleOpen "by_at 2 40" 5 "[1]"] h3 h4
    by blast
  have c5: "snd (donate (by_at 6 40) 1 5 [] sampleOpen) = sampleOpen"
    using donate_preconditions_in_order [of 1 sampleOpen "by_at 6 40" 5 "[]"] h5
    by blast
  show ?thesis
    using h1 h2 h3 h4 h5 c1 c2 c3 c4 c5 by (intro conjI) blast+
qed

text \<open>
  C9. For a round id outside the range from 1 to the round count, \<open>getRound\<close>,
  \<open>getDonationCount\<close> and \<open>getMatchingCommitmentCount\<close> fail with NotFound; for an
  id inside the range each of them succeeds; none of them changes the state.
\<close>

theorem reads_fail_outside_range:
  "(\<not> (1 \<le> r \<and> r \<le> getRoundCount s) \<longrightarrow>
      getRound r s = Inl NotFound \<and> getDonationCount r s = Inl NotFound \<and>
      getMatchingCommitmentCount r s = Inl NotFound) \<and>
   (1 \<le> r \<and> r \<le> getRoundCount s \<longrightarrow>
      getRound r s = Inr (rounds s r) \<and>
      getDonationCount r s = Inr (length (roundDonations s r)) \<and>
      getMatchingCommitmentCount r s = Inr (length (roundMatchingCommitments s r))) \<and>
   snd (exec e (GetRound r) s) = s \<and> snd (exec e (GetDonationCount r) s) = s \<and>
   snd (exec e (GetMatchingCommitmentCount r) s) = s"
proof -
  have "(1 \<le> r) = (0 < r)"
    by (simp add: word_le_nat_alt word_less_nat_alt Suc_le_eq)
  then show ?thesis
    by (simp add: getRound_def getDonationCount_def getMatchingCommitmentCount_def
          validRound_def getRoundCount_def)
qed

theorem reads_fail_outside_range_witness:
  "\<not> (1 \<le> (2::uint256) \<and> 2 \<le> getRoundCount sampleOpen) \<and>
   getRound 2 sampleOpen = Inl NotFound \<and> getDonationCount 2 sampleOpen = Inl NotFound \<and>
   getMatchingCommitmentCount 2 sampleOpen = Inl NotFound \<and>
   \<not> (1 \<le> (0::uint256) \<and> 0 \<le> getRoundCount sampleOpen) \<and>
   getRound 0 sampleOpen = Inl NotFound \<and> getDonationCount 0 sampleOpen = Inl NotFound \<and>
   getMatchingCommitmentCount 0 sampleOpen = Inl NotFound \<and>
   (1 \<le> (1::uint256) \<and> 1 \<le> getRoundCount sampleOpen) \<and>
   getRound 1 sampleOpen = Inr (rounds sampleOpen 1) \<and>
   getDonationCount 1 sampleOpen = Inr 2 \<and>
   getMatchingCommitmentCount 1 sampleOpen = Inr 1"
proof -
  have h1: "\<not> (1 \<le> (2::uint256) \<and> 2 \<le> getRoundCount sampleOpen)"
    by (simp add: getRoundCount_def sampleOpen_eval word_le_nat_alt)
  have h2: "\<not> (1 \<le> (0::uint256) \<and> 0 \<le> getRoundCount sampleOpen)"
    by simp
  have h3: "1 \<le> (1::uint256) \<and> 1 \<le> getRoundCount sampleOpen"
    by (simp add: getRoundCount_def sampleOpen_eval)
  have l: "length (roundDonations sampleOpen 1) = 2"
    "length (roundMatchingCommitments sampleOpen 1) = 1"
    by (simp_all add: sampleOpen_eval)
  show ?thesis
    using reads_fail_outside_range [of 2 sampleOpen]
      reads_fail_outside_range [of 0 sampleOpen]
      reads_fail_outside_range [of 1 sampleOpen] h1 h2 h3
    unfolding l by blast
qed

text \<open>
  C10. After a successful \<open>donate\<close>, the donation on record is the caller's, and the
  caller holds a decrypt grant on the ciphertext of that donation's own amount, which is
  a ciphertext of the submitted amount and not the community total.
\<close>

theorem donor_granted_own_amount:
  assumes "fst (donate e r enc ipf s) = Inr ()"
  shows "roundDonations (snd (donate e r enc ipf s)) r \<noteq> [] \<and>
    donor (last (roundDonations (snd (donate e r enc ipf s)) r)) = sender e \<and>
    isAllowed (snd (donate e r enc ipf s))
      (amount (last (roundDonations (snd (donate e r enc ipf s)) r))) (sender e) \<and>
    map_option PUint64 (verify s enc ipf (sender e) (self s)) =
      decrypt (snd (donate e r enc ipf s))
        (amount (last (roundDonations (snd (donate e r enc ipf s)) r))) \<and>
    amount (last (roundDonations (snd (donate e r enc ipf s)) r)) \<noteq>
      encryptedCommunityTotal (rounds (snd (donate e r enc ipf s)) r)"
proof -
  from donate_success [OF assms] obtain v where
    ok: "validRound s r" "\<not> settled (rounds s r)" "timestamp e < endTime (rounds s r)"
      "\<not> hasDonated s r (sender e)" "verify s enc ipf (sender e) (self s) = Some v"
    by blast
  show ?thesis
    by (simp add: donate_effect [OF ok] isAllowed_def decrypt_def nth_append ok(5))
qed

theorem donor_granted_own_amount_witness:
  "fst (donate (by_at 6 40) 1 700 [1] sampleOpen) = Inr () \<and>
   donor (last (roundDonations (snd (donate (by_at 6 40) 1 700 [1] sampleOpen)) 1)) = 6 \<and>
   amount (last (roundDonations (snd (donate (by_at 6 40) 1 700 [1] sampleOpen)) 1)) = 10 \<and>
   isAllowed (snd (donate (by_at 6 40) 1 700 [1] sampleOpen)) 10 6 \<and>
   decrypt (snd (donate (by_at 6 40) 1 700 [1] sampleOpen)) 10 = Some (PUint64 700) \<and>
   encryptedCommunityTotal (rounds (snd (donate (by_at 6 40) 1 700 [1] sampleOpen)) 1) = 11"
proof -
  have h: "fst (donate (by_at 6 40) 1 700 [1] sampleOpen) = Inr ()"
    by (simp add: sampleOpen_eval eval_defs)
  have a: "amount (last (roundDonations (snd (donate (by_at 6 40) 1 700 [1] sampleOpen)) 1)) = 10"
    "encryptedCommunityTotal (rounds (snd (donate (by_at 6 40) 1 700 [1] sampleOpen)) 1) = 11"
    "verify sampleOpen 700 [1] 6 (self sampleOpen) = Some 700"
    "sender (by_at 6 40) = 6"
    by (simp_all add: sampleOpen_eval eval_defs)
  show ?thesis
    using donor_granted_own_amount [OF h] h unfolding a by simp
qed

text \<open>
  C7, as amended. \<open>createRound\<close> fails with InvalidArgument when the name is empty or
  the duration is 0, and with an arithmetic panic when name and duration are valid but the
  round counter is at its maximum or now + duration exceeds the 256 bits; a failing call
  changes no state. Otherwise it allocates the next round id, the previous round count plus
  one (so the ids grow and, the count never decreasing afterwards, are not reused), leaves
  every other round as it was, sets the start to now, the end to now + duration, settled to
  false, the three encrypted totals to encrypted zeros and the public final total to 0. It
  returns no value: the new id is the new round count and is carried by the
  DonationRoundCreated event.
\<close>

theorem createRound_allocates_next_id:
  "(nm = [] \<or> duration = 0 \<longrightarrow>
      createRound e nm descr duration s = (Inl InvalidArgument, s)) \<and>
   (nm \<noteq> [] \<and> duration \<noteq> 0 \<and>
    (getRoundCount s = - 1 \<or> 2 ^ 256 \<le> unat (timestamp e) + unat duration) \<longrightarrow>
      createRound e nm descr duration s = (Inl Panic, s)) \<and>
   (nm \<noteq> [] \<and> duration \<noteq> 0 \<and> getRoundCount s \<noteq> - 1 \<and>
    unat (timestamp e) + unat duration < 2 ^ 256 \<longrightarrow>
      (let s' = snd (createRound e nm descr duration s); n = getRoundCount s' in
         exec e (CreateRound nm descr duration) s = (Inr Void, s') \<and>
         unat n = unat (getRoundCount s) + 1 \<and>
         (\<forall>later. n \<le> getRoundCount (run later s')) \<and>
         (\<forall>r. r \<noteq> n \<longrightarrow> rounds s' r = rounds s r) \<and>
         id (rounds s' n) = n \<and> name (rounds s' n) = nm \<and>
         description (rounds s' n) = descr \<and>
         startTime (rounds s' n) = timestamp e \<and>
         unat (endTime (rounds s' n)) = unat (timestamp e) + unat duration \<and>
         \<not> settled (rounds s' n) \<and> publicFinalTotal (rounds s' n) = 0 \<and>
         decrypt s' (encryptedCommunityTotal (rounds s' n)) = Some (PUint64 0) \<and>
         decrypt s' (encryptedMatchingTotal (rounds s' n)) = Some (PUint64 0) \<and>
         decrypt s' (encryptedFinalTotal (rounds s' n)) = Some (PUint64 0) \<and>
         last (events s') = DonationRoundCreated n nm (endTime (rounds s' n))))"
proof (intro conjI impI)
  assume "nm = [] \<or> duration = 0"
  then show "createRound e nm descr duration s = (Inl InvalidArgument, s)"
    by (auto simp: createRound_def)
next
  assume a: "nm \<noteq> [] \<and> duration \<noteq> 0 \<and>
    (getRoundCount s = - 1 \<or> 2 ^ 256 \<le> unat (timestamp e) + unat duration)"
  then have "0 < duration" by (simp add: word_neq_0_conv)
  moreover have "roundCounter s = - 1 \<or> timestamp e + duration < timestamp e"
    using a checked_add_uint256 [of "timestamp e" duration]
    by (auto simp: getRoundCount_def)
  ultimately show "createRound e nm descr duration s = (Inl Panic, s)"
    using a by (auto simp: createRound_def)
next
  assume a: "nm \<noteq> [] \<and> duration \<noteq> 0 \<and> getRoundCount s \<noteq> - 1 \<and>
    unat (timestamp e) + unat duration < 2 ^ 256"
  then have ok: "nm \<noteq> []" "0 < duration" "roundCounter s \<noteq> - 1"
    "\<not> timestamp e + duration < timestamp e"
    using checked_add_uint256 [of "timestamp e" duration]
    by (simp_all add: word_neq_0_conv getRoundCount_def)
  have u: "unat (timestamp e + duration) = unat (timestamp e) + unat duration"
    using a unat_add_lem [of "timestamp e" duration] by simp
  have mono: "roundCounter s + 1 \<le> roundCounter (run later s')"
    if "roundCounter s' = roundCounter s + 1" for later s'
    using roundCounter_run [of s' later] that by simp
  show "let s' = snd (createRound e nm descr duration s); n = getRoundCount s' in
         exec e (CreateRound nm descr duration) s = (Inr Void, s') \<and>
         unat n = unat (getRoundCount s) + 1 \<and>
         (\<forall>later. n \<le> getRoundCount (run later s')) \<and>
         (\<forall>r. r \<noteq> n \<longrightarrow> rounds s' r = rounds s r) \<and>
         id (rounds s' n) = n \<and> name (rounds s' n) = nm \<and>
         description (rounds s' n) = descr \<and>
         startTime (rounds s' n) = timestamp e \<and>
         unat (endTime (rounds s' n)) = unat (timestamp e) + unat duration \<and>
         \<not> settled (rounds s' n) \<and> publicFinalTotal (rounds s' n) = 0 \<and>
         decrypt s' (encryptedCommunityTotal (rounds s' n)) = Some (PUint64 0) \<and>
         decrypt s' (encryptedMatchingTotal (rounds s' n)) = Some (PUint64 0) \<and>
         decrypt s' (encryptedFinalTotal (rounds s' n)) = Some (PUint64 0) \<and>
         last (events s') = DonationRoundCreated n nm (endTime (rounds s' n))"
    unfolding Let_def exec.simps createRound_effect [OF ok]
    by (simp add: getRoundCount_def unat_succ [OF ok(3)] u decrypt_def nth_append mono)
qed

theorem createRound_allocates_next_id_witness:
  "createRound (by_at 1 0) [] ''Support'' 86400 sampleStart = (Inl InvalidArgument, sampleStart) \<and>
   createRound (by_at 1 0) ''Climate'' ''Support'' 0 sampleStart = (Inl InvalidArgument, sampleStart) \<and>
   (''Climate'' \<noteq> [] \<and> (- 1 :: uint256) \<noteq> 0 \<and>
    2 ^ 256 \<le> unat (timestamp (by_at 1 1)) + unat (- 1 :: uint256)) \<and>
   createRound (by_at 1 1) ''Climate'' ''Support'' (- 1) sampleStart = (Inl Panic, sampleStart) \<and>
   (''Climate'' \<noteq> [] \<and> (86400 :: uint256) \<noteq> 0 \<and> getRoundCount sampleStart \<noteq> - 1 \<and>
    unat (timestamp (by_at 1 0)) + unat (86400 :: uint256) < 2 ^ 256) \<and>
   exec (by_at 1 0) (CreateRound ''Climate'' ''Support'' 86400) sampleStart =
     (Inr Void, snd (createRound (by_at 1 0) ''Climate'' ''Support'' 86400 sampleStart)) \<and>
   unat (getRoundCount (snd (createRound (by_at 1 0) ''Climate'' ''Support'' 86400 sampleStart))) = 1"
proof -
  have h3: "''Climate'' \<noteq> [] \<and> (- 1 :: uint256) \<noteq> 0 \<and>
    2 ^ 256 \<le> unat (timestamp (by_at 1 1)) + unat (- 1 :: uint256)"
    by (simp add: by_at_def unsigned_minus_1_eq_mask mask_eq_exp_minus_1)
  have h4: "''Climate'' \<noteq> [] \<and> (86400 :: uint256) \<noteq> 0 \<and> getRoundCount sampleStart \<noteq> - 1 \<and>
    unat (timestamp (by_at 1 0)) + unat (86400 :: uint256) < 2 ^ 256"
    by (simp add: by_at_def getRoundCount_def sampleStart_def deployed_def)
  have c0: "unat (getRoundCount sampleStart) = 0"
    by (simp add: getRoundCount_def sampleStart_def deployed_def)
  have c1: "createRound (by_at 1 0) [] ''Support'' 86400 sampleStart =
            (Inl InvalidArgument, sampleStart)"
    using createRound_allocates_next_id [of "[]" 86400 "by_at 1 0" "''Support''" sampleStart]
    by simp
  have c2: "createRound (by_at 1 0) ''Climate'' ''Support'' 0 sampleStart =
            (Inl InvalidArgument, sampleStart)"
    using createRound_allocates_next_id [of "''Climate''" 0 "by_at 1 0" "''Support''" sampleStart]
    by simp
  have c3: "createRound (by_at 1 1) ''Climate'' ''Support'' (- 1) sampleStart =
            (Inl Panic, sampleStart)"
    using createRound_allocates_next_id [of "''Climate''" "- 1" "by_at 1 1" "''Support''" sampleStart]
      h3 by blast
  have c4: "exec (by_at 1 0) (CreateRound ''Climate'' ''Support'' 86400) sampleStart =
     (Inr Void, snd (createRound (by_at 1 0) ''Climate'' ''Support'' 86400 sampleStart)) \<and>
   unat (getRoundCount (snd (createRound (by_at 1 0) ''Climate'' ''Support'' 86400 sampleStart))) =
     unat (getRoundCount sampleStart) + 1"
    using createRound_allocates_next_id [of "''Climate''" 86400 "by_at 1 0" "''Support''" sampleStart]
      h4 unfolding Let_def by blast
  show ?thesis
    using h3 h4 c1 c2 c3 c4 unfolding c0 by (intro conjI) simp_all
qed

text \<open>
  C7 as stated fails twice. With a non-empty name and a positive duration the call can
  still fail, with a panic, allocating nothing: here the duration is the largest
  \<open>uint256\<close> and the time is 1. And a successful call returns no value, not the new
  round id, which is 1 here.
\<close>

theorem createRound_counterexample:
  "''Climate'' \<noteq> [] \<and> (0 :: uint256) < - 1 \<and>
   createRound (by_at 1 1) ''Climate'' ''Support'' (- 1) sampleStart = (Inl Panic, sampleStart) \<and>
   fst (exec (by_at 1 0) (CreateRound ''Climate'' ''Support'' 86400) sampleStart) = Inr Void \<and>
   getRoundCount (snd (exec (by_at 1 0) (CreateRound ''Climate'' ''Support'' 86400) sampleStart)) = 1"
  by (simp add: createRound_def getRoundCount_def sampleStart_def deployed_def by_at_def
        backend_defs Let_def word_gt_0)

text \<open>
  C2. In every state the contract can reach, a successful \<open>donate\<close> replaces the
  community total of the round by a new ciphertext and issues, in this order, grants on it
  to the contract, to the donor and to every earlier donor of the round in donation order
  (with the two grants on the donor's own amount in between). From then on, whatever is
  called, the donor stays on record and the contract and every donor on record hold a grant
  on the current community total of the round.
\<close>

theorem donors_keep_grant_on_community_total:
  assumes "s = run history (deployed a v)"
    and "fst (donate e r enc ipf s) = Inr ()"
  shows "let s1 = snd (donate e r enc ipf s);
             total = encryptedCommunityTotal (rounds s1 r);
             amt = amount (last (roundDonations s1 r)) in
     total \<noteq> encryptedCommunityTotal (rounds s r) \<and>
     isAllowed s1 total (self s1) \<and> isAllowed s1 total (sender e) \<and>
     (\<forall>d \<in> set (roundDonations s r). isAllowed s1 total (donor d)) \<and>
     acl s1 = acl s @ [(amt, self s1), (total, self s1), (amt, sender e), (total, sender e)] @
                map (\<lambda>d. (total, donor d)) (roundDonations s r) \<and>
     (\<forall>later. let s2 = run later s1 in
        sender e \<in> donor ` set (roundDonations s2 r) \<and>
        isAllowed s2 (encryptedCommunityTotal (rounds s2 r)) (self s2) \<and>
        (\<forall>d \<in> set (roundDonations s2 r).
           isAllowed s2 (encryptedCommunityTotal (rounds s2 r)) (donor d)))"
proof -
  from donate_success [OF assms(2)] obtain x where
    ok: "validRound s r" "\<not> settled (rounds s r)" "timestamp e < endTime (rounds s r)"
      "\<not> hasDonated s r (sender e)" "verify s enc ipf (sender e) (self s) = Some x"
    by blast
  define s1 where "s1 = snd (donate e r enc ipf s)"
  have inv: "handlesValid s" "aclValid s" "unusedEmpty s" "donorsGranted s"
    "donorsMarked s" "totalsTyped s"
    unfolding assms(1) by (rule invariants_reachable)+
  have old: "encryptedCommunityTotal (rounds s r) \<le> length (ciphertexts s)"
    using inv(1) by (simp add: handlesValid_def)
  have s1: "s1 = snd (exec e (Donate r enc ipf) s)"
    by (simp only: s1_def exec_Donate)
  have now: "encryptedCommunityTotal (rounds s1 r) \<noteq> encryptedCommunityTotal (rounds s r) \<and>
     isAllowed s1 (encryptedCommunityTotal (rounds s1 r)) (self s1) \<and>
     isAllowed s1 (encryptedCommunityTotal (rounds s1 r)) (sender e) \<and>
     (\<forall>d \<in> set (roundDonations s r).
        isAllowed s1 (encryptedCommunityTotal (rounds s1 r)) (donor d)) \<and>
     acl s1 = acl s @
        [(amount (last (roundDonations s1 r)), self s1),
         (encryptedCommunityTotal (rounds s1 r), self s1),
         (amount (last (roundDonations s1 r)), sender e),
         (encryptedCommunityTotal (rounds s1 r), sender e)] @
        map (\<lambda>d. (encryptedCommunityTotal (rounds s1 r), donor d)) (roundDonations s r)"
    using old unfolding s1_def donate_effect [OF ok]
    by (auto simp: isAllowed_def)
  have rec: "\<lparr>donor = sender e, amount = Suc (length (ciphertexts s)),
              donationTimestamp = timestamp e, donationRoundId = r\<rparr>
             \<in> set (roundDonations s1 r)"
    unfolding s1_def donate_effect [OF ok] by simp
  have later: "sender e \<in> donor ` set (roundDonations (run later s1) r) \<and>
        isAllowed (run later s1) (encryptedCommunityTotal (rounds (run later s1) r))
          (self (run later s1)) \<and>
        (\<forall>d \<in> set (roundDonations (run later s1) r).
           isAllowed (run later s1)
             (encryptedCommunityTotal (rounds (run later s1) r)) (donor d))" for later
  proof -
    have reach: "run later s1 = run (history @ (e, Donate r enc ipf) # later) (deployed a v)"
      by (simp add: run_append s1 assms(1))
    have g: "donorsGranted (run later s1)"
      unfolding reach by (rule invariants_reachable)
    have "validRound s1 r"
      unfolding s1 by (rule validRound_exec [OF ok(1)])
    then have "validRound (run later s1) r"
      using roundCounter_run [of s1 later] by (auto simp: validRound_def)
    moreover have "sender e \<in> donor ` set (roundDonations (run later s1) r)"
      using donations_run [OF rec, of later] by force
    ultimately show ?thesis
      using g by (simp add: donorsGranted_def)
  qed
  show ?thesis
    unfolding Let_def s1_def [symmetric] using now later by blast
qed

theorem donors_keep_grant_on_community_total_witness:
  "sampleOpen = run sampleHistory (deployed 99 sampleVerify) \<and>
   fst (donate (by_at 6 40) 1 700 [1] sampleOpen) = Inr () \<and>
   encryptedCommunityTotal (rounds sampleOpen 1) = 7 \<and>
   map donor (roundDonations sampleOpen 1) = [2, 3] \<and>
   encryptedCommunityTotal (rounds (snd (donate (by_at 6 40) 1 700 [1] sampleOpen)) 1) = 11 \<and>
   isAllowed (snd (donate (by_at 6 40) 1 700 [1] sampleOpen)) 11 99 \<and>
   isAllowed (snd (donate (by_at 6 40) 1 700 [1] sampleOpen)) 11 6 \<and>
   isAllowed (snd (donate (by_at 6 40) 1 700 [1] sampleOpen)) 11 2 \<and>
   isAllowed (snd (donate (by_at 6 40) 1 700 [1] sampleOpen)) 11 3 \<and>
   acl (snd (donate (by_at 6 40) 1 700 [1] sampleOpen)) =
     acl sampleOpen @ [(10, 99), (11, 99), (10, 6), (11, 6), (11, 2), (11, 3)] \<and>
   6 \<in> donor ` set (roundDonations
          (run [(by_at 7 50, Donate 1 5 [1]), (by_at 5 86400, SettleRound 1)]
             (snd (donate (by_at 6 40) 1 700 [1] sampleOpen))) 1) \<and>
   isAllowed (run [(by_at 7 50, Donate 1 5 [1]), (by_at 5 86400, SettleRound 1)]
                (snd (donate (by_at 6 40) 1 700 [1] sampleOpen)))
     (encryptedCommunityTotal (rounds
        (run [(by_at 7 50, Donate 1 5 [1]), (by_at 5 86400, SettleRound 1)]
           (snd (donate (by_at 6 40) 1 700 [1] sampleOpen))) 1))
     6"
proof -
  define D where "D = snd (donate (by_at 6 40) 1 700 [1] sampleOpen)"
  have h1: "sampleOpen = run sampleHistory (deployed 99 sampleVerify)"
    by (simp add: sampleOpen_def sampleStart_def)
  have h2: "fst (donate (by_at 6 40) 1 700 [1] sampleOpen) = Inr ()"
    by (simp add: sampleOpen_eval eval_defs)
  have ev: "encryptedCommunityTotal (rounds D 1) = 11"
    "amount (last (roundDonations D 1)) = 10" "self D = 99"
    unfolding D_def by (simp_all add: sampleOpen_eval eval_defs)
  have ev0: "sender (by_at 6 40) = 6"
    "roundDonations sampleOpen 1 =
       [\<lparr>donor = 2, amount = 4, donationTimestamp = 10, donationRoundId = 1\<rparr>,
        \<lparr>donor = 3, amount = 6, donationTimestamp = 20, donationRoundId = 1\<rparr>]"
    "encryptedCommunityTotal (rounds sampleOpen 1) = 7"
    by (simp_all add: sampleOpen_eval by_at_def)
  note t = donors_keep_grant_on_community_total [OF h1 h2, unfolded Let_def,
      folded D_def, unfolded ev ev0]
  have now: "isAllowed D 11 99 \<and> isAllowed D 11 6 \<and> isAllowed D 11 2 \<and> isAllowed D 11 3 \<and>
    acl D = acl sampleOpen @ [(10, 99), (11, 99), (10, 6), (11, 6), (11, 2), (11, 3)]"
    using t by simp
  have later: "6 \<in> donor ` set (roundDonations (run later D) 1) \<and>
    isAllowed (run later D) (encryptedCommunityTotal (rounds (run later D) 1)) 6"
    for later
  proof -
    from t have a: "6 \<in> donor ` set (roundDonations (run later D) 1)"
      and b: "\<forall>d \<in> set (roundDonations (run later D) 1).
        isAllowed (run later D) (encryptedCommunityTotal (rounds (run later D) 1)) (donor d)"
      by auto
    from a obtain d where "d \<in> set (roundDonations (run later D) 1)" "donor d = 6"
      by auto
    with b a show ?thesis by auto
  qed
  have md: "map donor (roundDonations sampleOpen 1) = [2, 3]"
    by (simp add: ev0(2))
  show ?thesis
    unfolding D_def [symmetric]
    using h1 h2 ev(1) ev0(3) md now
      later [of "[(by_at 7 50, Donate 1 5 [1]), (by_at 5 86400, SettleRound 1)]"]
    by blast
qed

text \<open>
  C8. In every state the contract can reach, a successful \<open>commitMatching\<close> stores a
  commitment of the caller whose two ciphertexts, the maximum matching amount and the
  minimum trigger, are granted to the caller and to the contract and to nobody else; the
  commitment stays on record and, whatever is called afterwards (\<open>settleRound\<close>
  included), the holders of grants on the two ciphertexts stay these two.
\<close>

theorem commitment_ciphertexts_stay_private:
  assumes "s = run history (deployed a v)"
    and "fst (commitMatching e r em et pm pt s) = Inr ()"
  shows "let s1 = snd (commitMatching e r em et pm pt s);
             c = last (roundMatchingCommitments s1 r) in
     matcher c = sender e \<and>
     maxMatchingAmount c \<noteq> minTrigger c \<and>
     grantees s1 (maxMatchingAmount c) = {sender e, self s} \<and>
     grantees s1 (minTrigger c) = {sender e, self s} \<and>
     (\<forall>later. let s2 = run later s1 in
        c \<in> set (roundMatchingCommitments s2 r) \<and>
        grantees s2 (maxMatchingAmount c) = {sender e, self s} \<and>
        grantees s2 (minTrigger c) = {sender e, self s})"
proof -
  from commitMatching_success [OF assms(2)] obtain vmax vmin where
    ok: "validRound s r" "\<not> settled (rounds s r)" "timestamp e < endTime (rounds s r)"
      "\<not> hasCommittedMatching s r (sender e)"
      "verify s em pm (sender e) (self s) = Some vmax"
      "verify s et pt (sender e) (self s) = Some vmin"
    by blast
  define s1 where "s1 = snd (commitMatching e r em et pm pt s)"
  define c where "c = last (roundMatchingCommitments s1 r)"
  have "aclValid s"
    unfolding assms(1) by (rule invariants_reachable)
  then have fresh: "(Suc (length (ciphertexts s)), x) \<notin> set (acl s)"
    "(Suc (Suc (length (ciphertexts s))), x) \<notin> set (acl s)" for x
    by (auto simp: aclValid_def)
  have c: "c = \<lparr>matcher = sender e, maxMatchingAmount = Suc (length (ciphertexts s)),
                 minTrigger = Suc (Suc (length (ciphertexts s))), commitmentRoundId = r,
                 commitmentTimestamp = timestamp e, isActive = True\<rparr>"
    unfolding c_def s1_def commitMatching_effect [OF ok] by simp
  have mem: "c \<in> set (roundMatchingCommitments s1 r)"
    unfolding c s1_def commitMatching_effect [OF ok] by simp
  have len: "maxMatchingAmount c \<le> length (ciphertexts s1)"
    "minTrigger c \<le> length (ciphertexts s1)"
    unfolding c s1_def commitMatching_effect [OF ok] by simp_all
  have now: "grantees s1 (maxMatchingAmount c) = {sender e, self s}"
    "grantees s1 (minTrigger c) = {sender e, self s}"
    unfolding c s1_def commitMatching_effect [OF ok]
    using fresh by (auto simp: grantees_def isAllowed_def)
  have later: "c \<in> set (roundMatchingCommitments (run later s1) r) \<and>
        grantees (run later s1) (maxMatchingAmount c) = {sender e, self s} \<and>
        grantees (run later s1) (minTrigger c) = {sender e, self s}" for later
    using commitments_run [OF mem, of later] grants_run [OF len(1), of later]
      grants_run [OF len(2), of later] now
    by (simp add: grantees_def)
  have "matcher c = sender e" "maxMatchingAmount c \<noteq> minTrigger c"
    by (simp_all add: c)
  then show ?thesis
    unfolding Let_def s1_def [symmetric] c_def [symmetric] using now later by blast
qed

theorem commitment_ciphertexts_stay_private_witness:
  "sampleOpen = run sampleHistory (deployed 99 sampleVerify) \<and>
   fst (commitMatching (by_at 7 50) 1 60000 90000 [1] [1] sampleOpen) = Inr () \<and>
   last (roundMatchingCommitments
           (snd (commitMatching (by_at 7 50) 1 60000 90000 [1] [1] sampleOpen)) 1) =
     \<lparr>matcher = 7, maxMatchingAmount = 10, minTrigger = 11, commitmentRoundId = 1,
      commitmentTimestamp = 50, isActive = True\<rparr> \<and>
   grantees (snd (commitMatching (by_at 7 50) 1 60000 90000 [1] [1] sampleOpen)) 10 = {7, 99} \<and>
   grantees (snd (commitMatching (by_at 7 50) 1 60000 90000 [1] [1] sampleOpen)) 11 = {7, 99} \<and>
   grantees (run [(by_at 8 60, Donate 1 5 [1]), (by_at 5 86400, SettleRound 1)]
               (snd (commitMatching (by_at 7 50) 1 60000 90000 [1] [1] sampleOpen))) 10 = {7, 99} \<and>
   grantees (run [(by_at 8 60, Donate 1 5 [1]), (by_at 5 86400, SettleRound 1)]
               (snd (commitMatching (by_at 7 50) 1 60000 90000 [1] [1] sampleOpen))) 11 = {7, 99}"
proof -
  define M where "M = snd (commitMatching (by_at 7 50) 1 60000 90000 [1] [1] sampleOpen)"
  have h1: "sampleOpen = run sampleHistory (deployed 99 sampleVerify)"
    by (simp add: sampleOpen_def sampleStart_def)
  have h2: "fst (commitMatching (by_at 7 50) 1 60000 90000 [1] [1] sampleOpen) = Inr ()"
    by (simp add: sampleOpen_eval eval_defs)
  have ev: "last (roundMatchingCommitments M 1) =
     \<lparr>matcher = 7, maxMatchingAmount = 10, minTrigger = 11, commitmentRoundId = 1,
      commitmentTimestamp = 50, isActive = True\<rparr>"
    unfolding M_def by (simp add: sampleOpen_eval eval_defs)
  have ev0: "sender (by_at 7 50) = 7" "self sampleOpen = 99"
    by (simp_all add: sampleOpen_eval by_at_def)
  note t = commitment_ciphertexts_stay_private [OF h1 h2, unfolded Let_def,
      folded M_def, unfolded ev ev0]
  have now: "grantees M 10 = {7, 99}" "grantees M 11 = {7, 99}"
    using t by simp_all
  have later: "grantees (run later M) 10 = {7, 99} \<and> grantees (run later M) 11 = {7, 99}"
    for later
    using t by simp
  show ?thesis
    unfolding M_def [symmetric]
    using h1 h2 ev now
      later [of "[(by_at 8 60, Donate 1 5 [1]), (by_at 5 86400, SettleRound 1)]"]
    by blast
qed

text \<open>
  C5. Along every history of the contract in which block timestamps do not decrease, a
  call of \<open>settleRound\<close> before the end time of the round fails with RoundNotEnded. At
  or after the end time, on a round that exists and is not settled, it succeeds and sets
  the settled flag; from then on, whatever is called, the flag stays set, and every further
  \<open>settleRound\<close> on the round fails with AlreadySettled and leaves the whole state, the
  matching total and the final total included, as it was.
\<close>

theorem settleRound_once_after_end:
  assumes "s = run history (deployed a v)"
    and "chronological t0 (history @ [(e, SettleRound r)])"
  shows "(timestamp e < endTime (rounds s r) \<longrightarrow>
            settleRound e r s = (Inl RoundNotEnded, s)) \<and>
         (0 < r \<and> r \<le> getRoundCount s \<and> \<not> settled (rounds s r) \<and>
          endTime (rounds s r) \<le> timestamp e \<longrightarrow>
            fst (settleRound e r s) = Inr () \<and>
            settled (rounds (snd (settleRound e r s)) r) \<and>
            (\<forall>later e'. let s2 = run later (snd (settleRound e r s)) in
               settled (rounds s2 r) \<and>
               settleRound e' r s2 = (Inl AlreadySettled, s2)))"
proof (rule conjI; rule impI)
  assume before: "timestamp e < endTime (rounds s r)"
  have "settledPast t0 (deployed a v)"
    by (simp add: settledPast_def deployed_def zeroRound_def)
  from settledPast_run [OF this assms(2)] obtain t where
    t: "settledPast t s" "t \<le> timestamp e"
    unfolding assms(1) by blast
  have "\<not> settled (rounds s r)"
  proof
    assume "settled (rounds s r)"
    then have "endTime (rounds s r) \<le> t" using t(1) by (simp add: settledPast_def)
    with t(2) before show False by simp
  qed
  moreover have "validRound s r"
  proof (rule ccontr)
    assume "\<not> validRound s r"
    moreover have "unusedEmpty s" unfolding assms(1) by (rule invariants_reachable)
    ultimately have "rounds s r = zeroRound" by (simp add: unusedEmpty_def)
    with before show False by (simp add: zeroRound_def)
  qed
  ultimately show "settleRound e r s = (Inl RoundNotEnded, s)"
    using before by (simp add: settleRound_def not_le)
next
  assume a: "0 < r \<and> r \<le> getRoundCount s \<and> \<not> settled (rounds s r) \<and>
          endTime (rounds s r) \<le> timestamp e"
  then have ok: "validRound s r" "\<not> settled (rounds s r)" "endTime (rounds s r) \<le> timestamp e"
    by (simp_all add: validRound_def getRoundCount_def)
  define s1 where "s1 = snd (settleRound e r s)"
  from settleRound_effect [OF ok] obtain ext mt x where
    eff: "settleRound e r s =
    (Inr (),
     s\<lparr>rounds := (rounds s)(r := (rounds s r)
         \<lparr>settled := True, encryptedMatchingTotal := mt,
          encryptedFinalTotal := Suc (Suc (length (ciphertexts s) + length ext))\<rparr>),
       events := events s @ [RoundSettled r 0],
       ciphertexts := ciphertexts s @ PUint64 0 # ext @ [PUint64 x],
       acl := acl s @
         (Suc (Suc (length (ciphertexts s) + length ext)), self s) #
         map (\<lambda>d. (Suc (Suc (length (ciphertexts s) + length ext)), donor d))
           (roundDonations s r) @
         map (\<lambda>c. (Suc (Suc (length (ciphertexts s) + length ext)), matcher c))
           (filter isActive (roundMatchingCommitments s r))\<rparr>)"
    by blast
  have first: "fst (settleRound e r s) = Inr ()" "settled (rounds s1 r)" "validRound s1 r"
    using ok(1) unfolding s1_def eff by (simp_all add: validRound_def)
  have later: "settled (rounds (run later s1) r) \<and>
               settleRound e' r (run later s1) = (Inl AlreadySettled, run later s1)"
    for later e'
    using settled_run [OF first(3,2), of later] by (simp add: settleRound_def)
  show "fst (settleRound e r s) = Inr () \<and>
        settled (rounds (snd (settleRound e r s)) r) \<and>
        (\<forall>later e'. let s2 = run later (snd (settleRound e r s)) in
           settled (rounds s2 r) \<and> settleRound e' r s2 = (Inl AlreadySettled, s2))"
    unfolding Let_def s1_def [symmetric] using first(1,2) later by blast
qed

theorem settleRound_once_after_end_witness:
  "sampleOpen = run sampleHistory (deployed 99 sampleVerify) \<and>
   chronological 0 (sampleHistory @ [(by_at 5 40, SettleRound 1)]) \<and>
   timestamp (by_at 5 40) < endTime (rounds sampleOpen 1) \<and>
   settleRound (by_at 5 40) 1 sampleOpen = (Inl RoundNotEnded, sampleOpen) \<and>
   chronological 0 (sampleHistory @ [(by_at 5 86400, SettleRound 1)]) \<and>
   (0 < (1::uint256) \<and> 1 \<le> getRoundCount sampleOpen \<and> \<not> settled (rounds sampleOpen 1) \<and>
    endTime (rounds sampleOpen 1) \<le> timestamp (by_at 5 86400)) \<and>
   fst (settleRound (by_at 5 86400) 1 sampleOpen) = Inr () \<and>
   settled (rounds (snd (settleRound (by_at 5 86400) 1 sampleOpen)) 1) \<and>
   settled (rounds (run [(by_at 6 90000, Donate 1 5 [1])]
                      (snd (settleRound (by_at 5 86400) 1 sampleOpen))) 1) \<and>
   settleRound (by_at 7 90001) 1
     (run [(by_at 6 90000, Donate 1 5 [1])] (snd (settleRound (by_at 5 86400) 1 sampleOpen))) =
   (Inl AlreadySettled,
    run [(by_at 6 90000, Donate 1 5 [1])] (snd (settleRound (by_at 5 86400) 1 sampleOpen)))"
proof -
  have h1: "sampleOpen = run sampleHistory (deployed 99 sampleVerify)"
    by (simp add: sampleOpen_def sampleStart_def)
  have h2: "chronological 0 (sampleHistory @ [(by_at 5 40, SettleRound 1)])"
    "chronological 0 (sampleHistory @ [(by_at 5 86400, SettleRound 1)])"
    by (simp_all add: sampleHistory_def by_at_def)
  have h3: "timestamp (by_at 5 40) < endTime (rounds sampleOpen 1)"
    by (simp add: sampleOpen_eval by_at_def)
  have h4: "0 < (1::uint256) \<and> 1 \<le> getRoundCount sampleOpen \<and>
    \<not> settled (rounds sampleOpen 1) \<and>
    endTime (rounds sampleOpen 1) \<le> timestamp (by_at 5 86400)"
    by (simp add: sampleOpen_eval by_at_def getRoundCount_def)
  have c1: "settleRound (by_at 5 40) 1 sampleOpen = (Inl RoundNotEnded, sampleOpen)"
    using settleRound_once_after_end [OF h1 h2(1)] h3 by blast
  note t = settleRound_once_after_end [OF h1 h2(2), unfolded Let_def]
  have c2: "fst (settleRound (by_at 5 86400) 1 sampleOpen) = Inr ()"
    "settled (rounds (snd (settleRound (by_at 5 86400) 1 sampleOpen)) 1)"
    using t h4 by blast+
  have c3: "settled (rounds (run later (snd (settleRound (by_at 5 86400) 1 sampleOpen))) 1) \<and>
    settleRound e' 1 (run later (snd (settleRound (by_at 5 86400) 1 sampleOpen))) =
    (Inl AlreadySettled, run later (snd (settleRound (by_at 5 86400) 1 sampleOpen)))"
    for later e'
    using t h4 by blast
  show ?thesis
    using h1 h2 h3 h4 c1 c2 c3 by (intro conjI) blast+
qed

lemma unat_contribution:
  fixes C T M :: uint64
  shows "unat (if T \<le> C then M else 0) = contribution (unat C) (unat T) (unat M)"
  by (simp add: contribution_def word_le_nat_alt)

text \<open>
  C1, as amended. In every state the contract can reach, a successful \<open>settleRound\<close>
  leaves the community total as it was, a matching total that decrypts to the sum, over the
  active commitments of the round in insertion order, of the maximum matching amount where
  the community total is at least the trigger and of 0 elsewhere, and a final total that
  decrypts to the community total plus that sum, both modulo \<open>2^64\<close>: the encrypted
  integers have 64 bits and their addition wraps around. Where the community total plus the
  sum is below \<open>2^64\<close> the two are the sums themselves. For a round with one (active)
  commitment the sum is that commitment's contribution.
\<close>

theorem settleRound_totals:
  assumes "s = run history (deployed a v)"
    and "fst (settleRound e r s) = Inr ()"
  shows "let s' = snd (settleRound e r s) in
     decrypt s' (encryptedMatchingTotal (rounds s' r)) =
       Some (PUint64 (plain64 s' (encryptedMatchingTotal (rounds s' r)))) \<and>
     decrypt s' (encryptedFinalTotal (rounds s' r)) =
       Some (PUint64 (plain64 s' (encryptedFinalTotal (rounds s' r)))) \<and>
     communityTotal s' r = communityTotal s r \<and>
     matchingTotal s' r = matchingSum s r mod 2 ^ 64 \<and>
     finalTotal s' r = (communityTotal s r + matchingSum s r) mod 2 ^ 64 \<and>
     (communityTotal s r + matchingSum s r < 2 ^ 64 \<longrightarrow>
        matchingTotal s' r = matchingSum s r \<and>
        finalTotal s' r = communityTotal s r + matchingSum s r) \<and>
     (\<forall>c. roundMatchingCommitments s r = [c] \<and> isActive c \<longrightarrow>
        matchingSum s r = contribution (communityTotal s r)
          (unat (plain64 s (minTrigger c))) (unat (plain64 s (maxMatchingAmount c))))"
proof -
  define s' where "s' = snd (settleRound e r s)"
  define com where "com = encryptedCommunityTotal (rounds s r)"
  define w where "w = sum_list (map (\<lambda>c. if plain64 s (minTrigger c) \<le> plain64 s com
                                   then plain64 s (maxMatchingAmount c) else 0)
                            (filter isActive (roundMatchingCommitments s r)))"
  from settleRound_success [OF assms(2)]
  have ok: "validRound s r" "\<not> settled (rounds s r)" "endTime (rounds s r) \<le> timestamp e"
    by simp_all
  have inv: "handlesValid s"
    unfolding assms(1) by (rule invariants_reachable)
  have v: "decrypt s' (encryptedMatchingTotal (rounds s' r)) = Some (PUint64 w)"
    "decrypt s' (encryptedFinalTotal (rounds s' r)) = Some (PUint64 (plain64 s com + w))"
    "encryptedCommunityTotal (rounds s' r) = com"
    "plain64 s' com = plain64 s com"
    unfolding s'_def com_def w_def by (rule settleRound_values [OF ok inv])+
  have m: "plain64 s' (encryptedMatchingTotal (rounds s' r)) = w"
    and f: "plain64 s' (encryptedFinalTotal (rounds s' r)) = plain64 s com + w"
    unfolding plain64_def [of s'] v(1,2) by simp_all
  have "unat w = sum_list (map unat (map (\<lambda>c. if plain64 s (minTrigger c) \<le> plain64 s com
                                   then plain64 s (maxMatchingAmount c) else 0)
                            (filter isActive (roundMatchingCommitments s r)))) mod 2 ^ 64"
    unfolding w_def by (rule unat_sum_list_uint64)
  then have w: "unat w = matchingSum s r mod 2 ^ 64"
    by (simp add: matchingSum_def communityTotal_def com_def comp_def unat_contribution)
  have c: "communityTotal s' r = communityTotal s r"
    by (simp add: communityTotal_def v(3,4) com_def [symmetric])
  have mt: "matchingTotal s' r = matchingSum s r mod 2 ^ 64"
    by (simp add: matchingTotal_def m w)
  have "finalTotal s' r = (communityTotal s r + unat w) mod 2 ^ 64"
    by (simp add: finalTotal_def f communityTotal_def com_def unat_word_ariths)
  then have ft: "finalTotal s' r = (communityTotal s r + matchingSum s r) mod 2 ^ 64"
    by (simp add: w mod_add_right_eq)
  have small: "matchingTotal s' r = matchingSum s r \<and>
               finalTotal s' r = communityTotal s r + matchingSum s r"
    if "communityTotal s r + matchingSum s r < 2 ^ 64"
    using that by (simp add: mt ft)
  have one: "matchingSum s r = contribution (communityTotal s r)
          (unat (plain64 s (minTrigger c))) (unat (plain64 s (maxMatchingAmount c)))"
    if "roundMatchingCommitments s r = [c] \<and> isActive c" for c
    using that by (simp add: matchingSum_def)
  show ?thesis
    unfolding Let_def s'_def [symmetric] m f
    using v(1,2) c mt ft small one by blast
qed

theorem settleRound_totals_witness:
  "sampleOpen = run sampleHistory (deployed 99 sampleVerify) \<and>
   fst (settleRound (by_at 5 86400) 1 sampleOpen) = Inr () \<and>
   communityTotal sampleOpen 1 = 80000 \<and> matchingSum sampleOpen 1 = 50000 \<and>
   matchingTotal (snd (settleRound (by_at 5 86400) 1 sampleOpen)) 1 = 50000 \<and>
   finalTotal (snd (settleRound (by_at 5 86400) 1 sampleOpen)) 1 = 130000 \<and>
   belowOpen = run belowHistory (deployed 99 sampleVerify) \<and>
   fst (settleRound (by_at 5 86400) 1 belowOpen) = Inr () \<and>
   communityTotal belowOpen 1 = 70000 \<and> matchingSum belowOpen 1 = 0 \<and>
   matchingTotal (snd (settleRound (by_at 5 86400) 1 belowOpen)) 1 = 0 \<and>
   finalTotal (snd (settleRound (by_at 5 86400) 1 belowOpen)) 1 = 70000"
proof -
  have h1: "sampleOpen = run sampleHistory (deployed 99 sampleVerify)"
    by (simp add: sampleOpen_def sampleStart_def)
  have h2: "fst (settleRound (by_at 5 86400) 1 sampleOpen) = Inr ()"
    by (simp add: settleRound_def validRound_def by_at_def sampleOpen_eval case_prod_beta Let_def)
  have e1: "communityTotal sampleOpen 1 = 80000" "matchingSum sampleOpen 1 = 50000"
    by (simp_all add: matchingSum_def communityTotal_def contribution_def plain64_def
          decrypt_def sampleOpen_eval)
  have k1: "belowOpen = run belowHistory (deployed 99 sampleVerify)"
    by (simp add: belowOpen_def sampleStart_def)
  have k2: "fst (settleRound (by_at 5 86400) 1 belowOpen) = Inr ()"
    by (simp add: settleRound_def validRound_def by_at_def belowOpen_eval case_prod_beta Let_def)
  have e2: "communityTotal belowOpen 1 = 70000" "matchingSum belowOpen 1 = 0"
    by (simp_all add: matchingSum_def communityTotal_def contribution_def plain64_def
          decrypt_def belowOpen_eval)
  have c1: "matchingTotal (snd (settleRound (by_at 5 86400) 1 sampleOpen)) 1 = 50000 \<and>
            finalTotal (snd (settleRound (by_at 5 86400) 1 sampleOpen)) 1 = 130000"
    using settleRound_totals [OF h1 h2] unfolding Let_def e1 by simp
  have c2: "matchingTotal (snd (settleRound (by_at 5 86400) 1 belowOpen)) 1 = 0 \<and>
            finalTotal (snd (settleRound (by_at 5 86400) 1 belowOpen)) 1 = 70000"
    using settleRound_totals [OF k1 k2] unfolding Let_def e2 by simp
  show ?thesis
    using h1 h2 e1 k1 k2 e2 c1 c2 by (intro conjI) blast+
qed

text \<open>
  C1 as stated, with the sums taken as numbers, fails where they leave the 64 bits: a
  round with a community total of \<open>2^64 - 1\<close> and one active commitment of at most
  1 with trigger 0 settles to a final total of 0, not to the community total plus 1.
\<close>

theorem settleRound_totals_counterexample:
  "overflowOpen = run overflowHistory (deployed 99 sampleVerify) \<and>
   fst (settleRound (by_at 5 86400) 1 overflowOpen) = Inr () \<and>
   overflowSettled = snd (settleRound (by_at 5 86400) 1 overflowOpen) \<and>
   length (roundMatchingCommitments overflowOpen 1) = 1 \<and>
   communityTotal overflowOpen 1 = 18446744073709551615 \<and>
   matchingSum overflowOpen 1 = 1 \<and>
   matchingTotal overflowSettled 1 = 1 \<and>
   finalTotal overflowSettled 1 = 0 \<and>
   finalTotal overflowSettled 1 \<noteq> communityTotal overflowOpen 1 + matchingSum overflowOpen 1"
proof -
  have s: "plain64 overflowSettled (encryptedMatchingTotal (rounds overflowSettled 1)) = 1"
    "plain64 overflowSettled (encryptedFinalTotal (rounds overflowSettled 1)) = 0"
    "fst (settleRound (by_at 5 86400) 1 overflowOpen) = Inr ()"
    unfolding overflowSettled_def overflowOpen_eval by (simp_all add: eval_defs)
  have o: "communityTotal overflowOpen 1 = 18446744073709551615"
    "matchingSum overflowOpen 1 = 1"
    "length (roundMatchingCommitments overflowOpen 1) = 1"
    by (simp_all add: matchingSum_def communityTotal_def contribution_def plain64_def
          decrypt_def overflowOpen_eval)
  have r: "overflowOpen = run overflowHistory (deployed 99 sampleVerify)"
    by (simp add: overflowOpen_def sampleStart_def)
  have d: "overflowSettled = snd (settleRound (by_at 5 86400) 1 overflowOpen)"
    by (simp add: overflowSettled_def)
  have t: "matchingTotal overflowSettled 1 = 1" "finalTotal overflowSettled 1 = 0"
    by (simp_all add: s matchingTotal_def finalTotal_def)
  show ?thesis
    using r d s(3) o t by (intro conjI) simp_all
qed

text \<open>
  C6. In every state the contract can reach, the donation count of an existing round is
  the number of the successful \<open>donate\<close> calls on it so far, its donors on record are
  the callers of these calls, in order and pairwise distinct, and its community total
  decrypts to the sum of the amounts of these calls in 64 bits: to their sum as numbers
  whenever that sum does not exceed \<open>2^64 - 1\<close>.
\<close>

theorem donations_accumulate_exactly:
  assumes "s = run history (deployed a v)"
    and "0 < r \<and> r \<le> getRoundCount s"
  shows "let ds = successfulDonations r history (deployed a v) in
     getDonationCount r s = Inr (length ds) \<and>
     map donor (roundDonations s r) = map fst ds \<and> distinct (map fst ds) \<and>
     decrypt s (encryptedCommunityTotal (rounds s r)) = Some (PUint64 (sum_list (map snd ds))) \<and>
     communityTotal s r = sum_list (map (\<lambda>d. unat (snd d)) ds) mod 2 ^ 64 \<and>
     (sum_list (map (\<lambda>d. unat (snd d)) ds) \<le> 2 ^ 64 - 1 \<longrightarrow>
        communityTotal s r = sum_list (map (\<lambda>d. unat (snd d)) ds))"
proof -
  define ds where "ds = successfulDonations r history (deployed a v)"
  have valid: "validRound s r"
    using assms(2) by (simp add: validRound_def getRoundCount_def)
  have z: "roundDonations (deployed a v) r = []"
    "plain64 (deployed a v) (encryptedCommunityTotal (rounds (deployed a v) r)) = 0"
    by (simp_all add: deployed_def zeroRound_def plain64_def decrypt_def)
  note inv0 = invariants_deployed [of a v]
  from donation_run [OF inv0, where cs = history and r = r]
  have d: "map donor (roundDonations s r) = map fst ds"
    and p: "plain64 s (encryptedCommunityTotal (rounds s r)) = sum_list (map snd ds)"
    unfolding assms(1) ds_def z by simp_all
  have "length (map donor (roundDonations s r)) = length (map fst ds)"
    by (simp only: d)
  then have n: "getDonationCount r s = Inr (length ds)"
    using valid by (simp add: getDonationCount_def)
  have "donorsMarked s" unfolding assms(1) by (rule invariants_reachable)
  then have dist: "distinct (map fst ds)"
    unfolding d [symmetric] by (simp add: donorsMarked_def)
  have "totalsTyped s" unfolding assms(1) by (rule invariants_reachable)
  then obtain x where x: "decrypt s (encryptedCommunityTotal (rounds s r)) = Some (PUint64 x)"
    using valid by (auto simp: totalsTyped_def)
  then have "x = sum_list (map snd ds)"
    using p by (simp add: plain64_def)
  then have dec: "decrypt s (encryptedCommunityTotal (rounds s r)) =
                  Some (PUint64 (sum_list (map snd ds)))"
    using x by simp
  have "unat (sum_list (map snd ds)) = sum_list (map unat (map snd ds)) mod 2 ^ 64"
    by (rule unat_sum_list_uint64)
  then have c: "communityTotal s r = sum_list (map (\<lambda>d. unat (snd d)) ds) mod 2 ^ 64"
    by (simp add: communityTotal_def p comp_def)
  have small: "communityTotal s r = sum_list (map (\<lambda>d. unat (snd d)) ds)"
    if "sum_list (map (\<lambda>d. unat (snd d)) ds) \<le> 2 ^ 64 - 1"
    using that by (simp add: c)
  show ?thesis
    unfolding Let_def ds_def [symmetric] using n d dist dec c small by blast
qed

theorem donations_accumulate_exactly_witness:
  "sampleOpen = run sampleHistory (deployed 99 sampleVerify) \<and>
   (0 < (1::uint256) \<and> 1 \<le> getRoundCount sampleOpen) \<and>
   successfulDonations 1 sampleHistory (deployed 99 sampleVerify) = [(2, 30000), (3, 50000)] \<and>
   getDonationCount 1 sampleOpen = Inr 2 \<and>
   map donor (roundDonations sampleOpen 1) = [2, 3] \<and>
   decrypt sampleOpen (encryptedCommunityTotal (rounds sampleOpen 1)) = Some (PUint64 80000) \<and>
   communityTotal sampleOpen 1 = 80000"
proof -
  have h1: "sampleOpen = run sampleHistory (deployed 99 sampleVerify)"
    by (simp add: sampleOpen_def sampleStart_def)
  have h2: "0 < (1::uint256) \<and> 1 \<le> getRoundCount sampleOpen"
    by (simp add: getRoundCount_def sampleOpen_eval)
  have ds: "successfulDonations 1 sampleHistory (deployed 99 sampleVerify) =
            [(2, 30000), (3, 50000)]"
    by (simp add: sampleHistory_def eval_defs)
  show ?thesis
    using donations_accumulate_exactly [OF h1 h2] h1 h2
    unfolding Let_def ds by simp
qed

text \<open>
  C3 fails on the code for the matching total. In every state the contract can reach, a
  successful \<open>settleRound\<close> replaces the matching total of the round by a new ciphertext
  and issues no grant on it, to the contract or to anybody else; the round keeps that
  ciphertext, and it has no grantee whatever is called afterwards. (The grants of
  \<open>settleRound\<close> are all on the final total; \<open>createRound\<close> had granted the contract on
  the matching total it replaces.)
\<close>

theorem settleRound_leaves_matching_total_without_grants:
  assumes "s = run history (deployed a v)"
    and "fst (settleRound e r s) = Inr ()"
  shows "let s' = snd (settleRound e r s) in
     encryptedMatchingTotal (rounds s' r) \<noteq> encryptedMatchingTotal (rounds s r) \<and>
     decrypt s' (encryptedMatchingTotal (rounds s' r)) \<noteq> None \<and>
     grantees s' (encryptedMatchingTotal (rounds s' r)) = {} \<and>
     \<not> isAllowed s' (encryptedMatchingTotal (rounds s' r)) (self s') \<and>
     (\<forall>later.
        encryptedMatchingTotal (rounds (run later s') r) =
          encryptedMatchingTotal (rounds s' r) \<and>
        grantees (run later s') (encryptedMatchingTotal (rounds s' r)) = {})"
proof -
  define s' where "s' = snd (settleRound e r s)"
  from settleRound_success [OF assms(2)]
  have ok: "validRound s r" "\<not> settled (rounds s r)" "endTime (rounds s r) \<le> timestamp e"
    by simp_all
  have inv: "handlesValid s" "aclValid s"
    unfolding assms(1) by (rule invariants_reachable)+
  from settleRound_effect [OF ok] obtain ext mt x where
    mt: "mt \<le> Suc (length (ciphertexts s) + length ext)" "length (ciphertexts s) < mt"
    and eff: "settleRound e r s =
    (Inr (),
     s\<lparr>rounds := (rounds s)(r := (rounds s r)
         \<lparr>settled := True, encryptedMatchingTotal := mt,
          encryptedFinalTotal := Suc (Suc (length (ciphertexts s) + length ext))\<rparr>),
       events := events s @ [RoundSettled r 0],
       ciphertexts := ciphertexts s @ PUint64 0 # ext @ [PUint64 x],
       acl := acl s @
         (Suc (Suc (length (ciphertexts s) + length ext)), self s) #
         map (\<lambda>d. (Suc (Suc (length (ciphertexts s) + length ext)), donor d))
           (roundDonations s r) @
         map (\<lambda>c. (Suc (Suc (length (ciphertexts s) + length ext)), matcher c))
           (filter isActive (roundMatchingCommitments s r))\<rparr>)"
    by blast
  have m': "encryptedMatchingTotal (rounds s' r) = mt"
    and v': "validRound s' r" "settled (rounds s' r)"
    and len: "mt \<le> length (ciphertexts s')"
    using ok(1) mt(1) unfolding s'_def eff by (simp_all add: validRound_def)
  have old: "encryptedMatchingTotal (rounds s r) \<le> length (ciphertexts s)"
    using inv(1) by (simp add: handlesValid_def)
  have new: "encryptedMatchingTotal (rounds s' r) \<noteq> encryptedMatchingTotal (rounds s r)"
    using old mt(2) by (simp add: m')
  have dec: "decrypt s' mt \<noteq> None"
    using mt unfolding s'_def eff by (simp add: decrypt_def)
  have "(mt, x) \<notin> set (acl s)" for x
    using inv(2) mt(2) by (auto simp: aclValid_def)
  then have none: "\<not> isAllowed s' mt x" for x
    using mt(1) unfolding s'_def eff by (auto simp: isAllowed_def)
  then have g: "grantees s' mt = {}"
    by (simp add: grantees_def)
  have later: "encryptedMatchingTotal (rounds (run later s') r) = mt \<and>
               grantees (run later s') mt = {}" for later
    using matchingTotal_run [OF v', of later] grants_run [OF len, of later] none
    by (simp add: m' grantees_def)
  show ?thesis
    unfolding Let_def s'_def [symmetric] m'
    using new [unfolded m'] dec g none later by blast
qed

theorem settleRound_leaves_matching_total_without_grants_witness:
  "sampleOpen = run sampleHistory (deployed 99 sampleVerify) \<and>
   fst (settleRound (by_at 5 86400) 1 sampleOpen) = Inr () \<and>
   sampleSettled = snd (settleRound (by_at 5 86400) 1 sampleOpen) \<and>
   encryptedMatchingTotal (rounds sampleOpen 1) = 2 \<and> grantees sampleOpen 2 = {99} \<and>
   encryptedMatchingTotal (rounds sampleSettled 1) = 14 \<and>
   decrypt sampleSettled 14 = Some (PUint64 50000) \<and>
   grantees sampleSettled 14 = {} \<and>
   \<not> isAllowed sampleSettled 14 (self sampleSettled) \<and>
   grantees (run [(by_at 2 90000, Donate 1 5 [1]), (by_at 6 90001, SettleRound 1)] sampleSettled) 14 = {} \<and>
   encryptedFinalTotal (rounds sampleSettled 1) = 15 \<and>
   grantees sampleSettled 15 = {99, 2, 3, 4}"
proof -
  have h1: "sampleOpen = run sampleHistory (deployed 99 sampleVerify)"
    by (simp add: sampleOpen_def sampleStart_def)
  have h2: "fst (settleRound (by_at 5 86400) 1 sampleOpen) = Inr ()"
    by (simp add: settleRound_def validRound_def by_at_def sampleOpen_eval case_prod_beta Let_def)
  have d: "sampleSettled = snd (settleRound (by_at 5 86400) 1 sampleOpen)"
    by (simp add: sampleSettled_def)
  have ev: "encryptedMatchingTotal (rounds sampleOpen 1) = 2"
    "encryptedMatchingTotal (rounds sampleSettled 1) = 14"
    "encryptedFinalTotal (rounds sampleSettled 1) = 15"
    "decrypt sampleSettled 14 = Some (PUint64 50000)"
    by (simp_all add: sampleOpen_eval sampleSettled_eval decrypt_def)
  have g: "grantees sampleOpen 2 = {99}" "grantees sampleSettled 15 = {99, 2, 3, 4}"
    by (auto simp: grantees_def isAllowed_def sampleOpen_eval sampleSettled_eval)
  note t = settleRound_leaves_matching_total_without_grants [OF h1 h2, unfolded Let_def,
      folded d, unfolded ev]
  have c: "grantees sampleSettled 14 = {}" "\<not> isAllowed sampleSettled 14 (self sampleSettled)"
    "grantees (run later sampleSettled) 14 = {}" for later
    using t by blast+
  show ?thesis
    using h1 h2 d ev g c(1,2)
      c(3) [of "[(by_at 2 90000, Donate 1 5 [1]), (by_at 6 90001, SettleRound 1)]"]
    by (intro conjI) blast+
qed

end
